theory Spec2Isabelle
  imports Complex_Main
begin

section \<open>The ripple ledger (src/main.js, class RippleManager)\<close>

text \<open>
  JavaScript numbers and the 32-bit floats of the typed array are modelled as
  \<^typ>\<open>real\<close>: rounding is abstracted, the control flow, the comparisons and the
  array indexing are those of the source. Array lengths, indices and counters are
  \<^typ>\<open>nat\<close>.

  A pool slot is the object literal built in the constructor. Its fields \<open>x\<close> and
  \<open>y\<close> are called \<open>px\<close> and \<open>py\<close> here, so that \<open>x\<close> and \<open>y\<close> stay
  variables.
\<close>

record ripple =
  px :: real
  py :: real
  startTime :: real
  strength :: real
  active :: bool

record RippleManager =
  maxRipples :: nat
  ripples :: "ripple list"
  nextRippleIndex :: nat
  lastRippleTime :: real
  minRippleInterval :: real
  maxAge :: real
  activeRippleCount :: nat
  rippleData :: "real list"

text \<open>
  Reading \<open>this.ripples[i]\<close> outside the array gives \<open>undefined\<close>, and the next
  property access on it throws.
\<close>

datatype js_error = TypeError

text \<open>The object returned by \<open>update\<close>.\<close>

record update_result =
  data :: "real list"
  activeCount :: nat

text \<open>\<open>constructor(maxRipples = 128)\<close>\<close>

definition new_RippleManager :: "nat \<Rightarrow> RippleManager" where
  "new_RippleManager n =
     \<lparr> maxRipples = n,
       ripples = replicate n \<lparr> px = 0, py = 0, startTime = 0, strength = 0, active = False \<rparr>,
       nextRippleIndex = 0,
       lastRippleTime = 0,
       minRippleInterval = 25,
       maxAge = 2,
       activeRippleCount = 0,
       rippleData = replicate (n * 4) 0 \<rparr>"

text \<open>
  \<open>addRipple(x, y, timestamp)\<close>: the rate limit returns early; otherwise the slot at
  the write cursor is overwritten field by field and the cursor advances.
\<close>

definition addRipple :: "real \<Rightarrow> real \<Rightarrow> real \<Rightarrow> RippleManager \<Rightarrow> js_error + RippleManager" where
  "addRipple x y timestamp s =
     (if timestamp - lastRippleTime s < minRippleInterval s then Inr s
      else if nextRippleIndex s < length (ripples s) then
        Inr (s \<lparr> ripples := (ripples s)
                    [nextRippleIndex s := (ripples s ! nextRippleIndex s)
                       \<lparr> px := x, py := y, startTime := timestamp / 1000,
                         strength := 1, active := True \<rparr>],
                 nextRippleIndex := (nextRippleIndex s + 1) mod maxRipples s,
                 lastRippleTime := timestamp \<rparr>)
      else Inl TypeError)"

text \<open>
  The body of the first loop of \<open>update\<close> for slot \<open>i\<close>. A store into the
  \<open>Float32Array\<close> outside its bounds is ignored, which is what list update does.
\<close>

definition STRENGTH_THRESHOLD :: real where
  "STRENGTH_THRESHOLD = 0.01"

definition update_slot :: "real \<Rightarrow> nat \<Rightarrow> RippleManager \<Rightarrow> js_error + RippleManager" where
  "update_slot currentTime i s =
     (if i < length (ripples s) then
        (let r = ripples s ! i in
         if \<not> active r then Inr s
         else
           (let age = currentTime - startTime r in
            if age \<ge> maxAge s then
              Inr (s \<lparr> ripples := (ripples s)[i := r \<lparr> active := False, strength := 0 \<rparr>] \<rparr>)
            else
              (let r' = r \<lparr> strength := 1 - age / maxAge s \<rparr> in
               if strength r' > STRENGTH_THRESHOLD then
                 (let baseIndex = activeRippleCount s * 4 in
                  Inr (s \<lparr> ripples := (ripples s)[i := r'],
                           rippleData := (rippleData s)
                             [baseIndex := px r',
                              baseIndex + 1 := py r',
                              baseIndex + 2 := strength r',
                              baseIndex + 3 := startTime r'],
                           activeRippleCount := activeRippleCount s + 1 \<rparr>))
               else
                 Inr (s \<lparr> ripples := (ripples s)[i := r' \<lparr> active := False \<rparr>] \<rparr>))))
      else Inl TypeError)"

text \<open>\<open>for (let i = 0; i < this.maxRipples; i++)\<close>, entered at index \<open>i\<close>.\<close>

function update_pass :: "real \<Rightarrow> nat \<Rightarrow> RippleManager \<Rightarrow> js_error + RippleManager" where
  "update_pass currentTime i s =
     (if i < maxRipples s then
        (case update_slot currentTime i s of
           Inl e \<Rightarrow> Inl e
         | Inr s' \<Rightarrow> update_pass currentTime (i + 1) s')
      else Inr s)"
  by pat_completeness auto
termination
  by (relation "measure (\<lambda>(currentTime, i, s). maxRipples s - i)")
     (auto simp: update_slot_def Let_def split: if_splits)

text \<open>\<open>for (let i = this.activeRippleCount; i < this.maxRipples; i++)\<close>, entered at \<open>i\<close>.\<close>

function clear_pass :: "nat \<Rightarrow> RippleManager \<Rightarrow> RippleManager" where
  "clear_pass i s =
     (if i < maxRipples s then
        (let baseIndex = i * 4 in
         clear_pass (i + 1) (s \<lparr> rippleData := (rippleData s)[baseIndex + 2 := 0] \<rparr>))
      else s)"
  by pat_completeness auto
termination
  by (relation "measure (\<lambda>(i, s). maxRipples s - i)") auto

text \<open>\<open>update(timestamp)\<close> returns the shared buffer and the count, and the new state.\<close>

definition update :: "real \<Rightarrow> RippleManager \<Rightarrow> js_error + (update_result \<times> RippleManager)" where
  "update timestamp s =
     (let currentTime = timestamp / 1000 in
      case update_pass currentTime 0 (s \<lparr> activeRippleCount := 0 \<rparr>) of
        Inl e \<Rightarrow> Inl e
      | Inr s1 \<Rightarrow>
          (let s2 = clear_pass (activeRippleCount s1) s1 in
           Inr (\<lparr> data = rippleData s2, activeCount = activeRippleCount s2 \<rparr>, s2)))"

section \<open>The field evaluator (src/shaders/wavy-grid.wgsl)\<close>

text \<open>
  \<open>f32\<close> values are modelled as \<^typ>\<open>real\<close>, vectors as tuples. A floating-point
  division by zero has no real value (it is an infinity or a NaN, which then spreads
  through every later operation): a division whose divisor is not a non-zero constant
  returns \<^typ>\<open>real option\<close>, \<open>None\<close> standing for that outcome.
\<close>

type_synonym vec2f = "real \<times> real"

type_synonym vec3f = "real \<times> real \<times> real"

type_synonym vec4f = "real \<times> real \<times> real \<times> real"

text \<open>\<open>struct Uniforms\<close>; the fields \<open>_padding1\<close>, \<open>_padding2\<close> lose their underscore.\<close>

record Uniforms =
  time :: real
  aspect_ratio :: real
  padding1 :: real
  padding2 :: real

text \<open>
  \<open>struct RippleData\<close>; its fields carry the prefix \<open>rd_\<close> to keep them apart from
  those of the pool slots.
\<close>

record RippleData =
  rd_position :: vec2f
  rd_strength :: real
  rd_startTime :: real

definition PI :: real where "PI = 3.14159265359"

definition GRID_VERTICAL_SIZE :: real where "GRID_VERTICAL_SIZE = 15"

definition GRID_HORIZONTAL_SIZE :: real where "GRID_HORIZONTAL_SIZE = 20"

definition LINE_WIDTH :: real where "LINE_WIDTH = 0.015"

definition DISTORTION_SCALE :: real where "DISTORTION_SCALE = 0.01"

definition ANIMATION_SPEED :: real where "ANIMATION_SPEED = 0.5"

definition RIPPLE_WAVELENGTH :: real where "RIPPLE_WAVELENGTH = 0.1"

definition RIPPLE_SPEED :: real where "RIPPLE_SPEED = 0.1"

definition RIPPLE_AMPLITUDE :: real where "RIPPLE_AMPLITUDE = 0.02"

definition MAX_RIPPLE_RADIUS :: real where "MAX_RIPPLE_RADIUS = 0.3"

definition MIN_RIPPLE_RADIUS :: real where "MIN_RIPPLE_RADIUS = 0.02"

definition RIPPLE_EDGE_SHARPNESS :: real where "RIPPLE_EDGE_SHARPNESS = 3"

subsection \<open>Built-in functions of the shading language\<close>

definition fdiv :: "real \<Rightarrow> real \<Rightarrow> real option" where
  "fdiv a b = (if b = 0 then None else Some (a / b))"

definition fract :: "real \<Rightarrow> real" where
  "fract v = v - of_int \<lfloor>v\<rfloor>"

definition ffloor :: "real \<Rightarrow> real" where
  "ffloor v = of_int \<lfloor>v\<rfloor>"

definition ftrunc :: "real \<Rightarrow> real" where
  "ftrunc v = (if 0 \<le> v then of_int \<lfloor>v\<rfloor> else of_int \<lceil>v\<rceil>)"

text \<open>\<open>e1 % e2\<close> on floats is \<open>e1 - e2 * trunc(e1 / e2)\<close>; it is only used with 289.\<close>

definition fmod :: "real \<Rightarrow> real \<Rightarrow> real" where
  "fmod a b = a - b * ftrunc (a / b)"

definition step :: "real \<Rightarrow> real \<Rightarrow> real" where
  "step edge v = (if edge \<le> v then 1 else 0)"

definition mix :: "real \<Rightarrow> real \<Rightarrow> real \<Rightarrow> real" where
  "mix a b t = a * (1 - t) + b * t"

definition clamp :: "real \<Rightarrow> real \<Rightarrow> real \<Rightarrow> real" where
  "clamp v lo hi = min (max v lo) hi"

text \<open>
  \<open>smoothstep(edge0, edge1, x)\<close> is \<open>t * t * (3.0 - 2.0 * t)\<close> with
  \<open>t = clamp((x - edge0) / (edge1 - edge0), 0.0, 1.0)\<close>.
\<close>

definition smoothstep :: "real \<Rightarrow> real \<Rightarrow> real \<Rightarrow> real option" where
  "smoothstep edge0 edge1 v =
     (case fdiv (v - edge0) (edge1 - edge0) of
        None \<Rightarrow> None
      | Some q \<Rightarrow> (let t = clamp q 0 1 in Some (t * t * (3 - 2 * t))))"

definition distance :: "vec2f \<Rightarrow> vec2f \<Rightarrow> real" where
  "distance a b = sqrt ((fst a - fst b)\<^sup>2 + (snd a - snd b)\<^sup>2)"

definition dot3 :: "vec3f \<Rightarrow> vec3f \<Rightarrow> real" where
  "dot3 a b = (case a of (a1, a2, a3) \<Rightarrow> case b of (b1, b2, b3) \<Rightarrow> a1 * b1 + a2 * b2 + a3 * b3)"

definition scale3 :: "vec3f \<Rightarrow> real \<Rightarrow> vec3f" where
  "scale3 a k = (case a of (a1, a2, a3) \<Rightarrow> (a1 * k, a2 * k, a3 * k))"

definition map4 :: "(real \<Rightarrow> real) \<Rightarrow> vec4f \<Rightarrow> vec4f" where
  "map4 f a = (case a of (a1, a2, a3, a4) \<Rightarrow> (f a1, f a2, f a3, f a4))"

definition zip4 :: "(real \<Rightarrow> real \<Rightarrow> real) \<Rightarrow> vec4f \<Rightarrow> vec4f \<Rightarrow> vec4f" where
  "zip4 f a b =
     (case a of (a1, a2, a3, a4) \<Rightarrow> case b of (b1, b2, b3, b4) \<Rightarrow>
        (f a1 b1, f a2 b2, f a3 b3, f a4 b4))"

subsection \<open>Perlin noise\<close>

definition permute :: "vec4f \<Rightarrow> vec4f" where
  "permute v = map4 (\<lambda>c. fmod ((c * 34 + 1) * c) 289) v"

definition taylorInvSqrt :: "vec4f \<Rightarrow> vec4f" where
  "taylorInvSqrt r = map4 (\<lambda>c. 1.79284291400159 - 0.85373472095314 * c) r"

definition fade :: "vec3f \<Rightarrow> vec3f" where
  "fade t = (case t of (t1, t2, t3) \<Rightarrow>
     (t1 * t1 * t1 * (t1 * (t1 * 6 - 15) + 10),
      t2 * t2 * t2 * (t2 * (t2 * 6 - 15) + 10),
      t3 * t3 * t3 * (t3 * (t3 * 6 - 15) + 10)))"

text \<open>
  The gradients of one \<open>z\<close> layer: the block computing \<open>gx0, gy0, gz0\<close> from \<open>ixy0\<close>
  (and \<open>gx1, gy1, gz1\<close> from \<open>ixy1\<close>), which the source writes out twice.
\<close>

definition gradients :: "vec4f \<Rightarrow> vec4f \<times> vec4f \<times> vec4f" where
  "gradients ixy =
     (let gx = map4 (\<lambda>c. c * (1 / 7)) ixy;
          gy = map4 (\<lambda>c. fract (ffloor c * (1 / 7)) - 0.5) gx;
          gx = map4 fract gx;
          gz = zip4 (\<lambda>a b. 0.5 - \<bar>a\<bar> - \<bar>b\<bar>) gx gy;
          sz = map4 (\<lambda>c. step c 0) gz;
          gx = zip4 (\<lambda>g s. g + s * (step 0 g - 0.5)) gx sz;
          gy = zip4 (\<lambda>g s. g + s * (step 0 g - 0.5)) gy sz
      in (gx, gy, gz))"

definition perlin3d :: "vec3f \<Rightarrow> real" where
  "perlin3d P =
     (case P of (Px, Py, Pz) \<Rightarrow>
      let Pi0x = ffloor Px; Pi0y = ffloor Py; Pi0z = ffloor Pz;
          Pi1x = Pi0x + 1; Pi1y = Pi0y + 1; Pi1z = Pi0z + 1;
          Pi0x = fmod Pi0x 289; Pi0y = fmod Pi0y 289; Pi0z = fmod Pi0z 289;
          Pi1x = fmod Pi1x 289; Pi1y = fmod Pi1y 289; Pi1z = fmod Pi1z 289;
          Pf0x = fract Px; Pf0y = fract Py; Pf0z = fract Pz;
          Pf1x = Pf0x - 1; Pf1y = Pf0y - 1; Pf1z = Pf0z - 1;
          ix = (Pi0x, Pi1x, Pi0x, Pi1x);
          iy = (Pi0y, Pi0y, Pi1y, Pi1y);
          iz0 = (Pi0z, Pi0z, Pi0z, Pi0z);
          iz1 = (Pi1z, Pi1z, Pi1z, Pi1z);
          ixy = permute (zip4 (+) (permute ix) iy);
          ixy0 = permute (zip4 (+) ixy iz0);
          ixy1 = permute (zip4 (+) ixy iz1)
      in case gradients ixy0 of ((gx0x, gx0y, gx0z, gx0w), (gy0x, gy0y, gy0z, gy0w), (gz0x, gz0y, gz0z, gz0w)) \<Rightarrow>
         case gradients ixy1 of ((gx1x, gx1y, gx1z, gx1w), (gy1x, gy1y, gy1z, gy1w), (gz1x, gz1y, gz1z, gz1w)) \<Rightarrow>
      let g000 = (gx0x, gy0x, gz0x);
          g100 = (gx0y, gy0y, gz0y);
          g010 = (gx0z, gy0z, gz0z);
          g110 = (gx0w, gy0w, gz0w);
          g001 = (gx1x, gy1x, gz1x);
          g101 = (gx1y, gy1y, gz1y);
          g011 = (gx1z, gy1z, gz1z);
          g111 = (gx1w, gy1w, gz1w)
      in case taylorInvSqrt (dot3 g000 g000, dot3 g010 g010, dot3 g100 g100, dot3 g110 g110) of
           (norm0x, norm0y, norm0z, norm0w) \<Rightarrow>
         case taylorInvSqrt (dot3 g001 g001, dot3 g011 g011, dot3 g101 g101, dot3 g111 g111) of
           (norm1x, norm1y, norm1z, norm1w) \<Rightarrow>
      let g000 = scale3 g000 norm0x;
          g010 = scale3 g010 norm0y;
          g100 = scale3 g100 norm0z;
          g110 = scale3 g110 norm0w;
          g001 = scale3 g001 norm1x;
          g011 = scale3 g011 norm1y;
          g101 = scale3 g101 norm1z;
          g111 = scale3 g111 norm1w;
          n000 = dot3 g000 (Pf0x, Pf0y, Pf0z);
          n100 = dot3 g100 (Pf1x, Pf0y, Pf0z);
          n010 = dot3 g010 (Pf0x, Pf1y, Pf0z);
          n110 = dot3 g110 (Pf1x, Pf1y, Pf0z);
          n001 = dot3 g001 (Pf0x, Pf0y, Pf1z);
          n101 = dot3 g101 (Pf1x, Pf0y, Pf1z);
          n011 = dot3 g011 (Pf0x, Pf1y, Pf1z);
          n111 = dot3 g111 (Pf1x, Pf1y, Pf1z)
      in case fade (Pf0x, Pf0y, Pf0z) of (fade_x, fade_y, fade_z) \<Rightarrow>
      let n_zx = mix n000 n001 fade_z;
          n_zy = mix n100 n101 fade_z;
          n_zz = mix n010 n011 fade_z;
          n_zw = mix n110 n111 fade_z;
          n_yzx = mix n_zx n_zz fade_y;
          n_yzy = mix n_zy n_zw fade_y;
          n_xyz = mix n_yzx n_yzy fade_x
      in 2.2 * n_xyz)"

subsection \<open>Ripples\<close>

text \<open>
  The uniform bindings \<open>uniforms\<close> and \<open>ripples\<close> are parameters; the array
  \<open>array<RippleData, 128>\<close> is a function on indices, read below 128 only.
\<close>

definition calculateRipple :: "Uniforms \<Rightarrow> vec2f \<Rightarrow> RippleData \<Rightarrow> real option" where
  "calculateRipple uniforms uv ripple =
     (let adjustedUV = (fst uv * aspect_ratio uniforms, snd uv);
          adjustedPosition = (fst (rd_position ripple) * aspect_ratio uniforms,
                              snd (rd_position ripple));
          dist = distance adjustedUV adjustedPosition;
          age = time uniforms - rd_startTime ripple;
          targetRadius = age * RIPPLE_SPEED;
          radius = min targetRadius MAX_RIPPLE_RADIUS
      in if dist > radius \<or> dist < MIN_RIPPLE_RADIUS \<or> rd_strength ripple \<le> 0 then Some 0
         else
           (case fdiv (dist - MIN_RIPPLE_RADIUS) (radius - MIN_RIPPLE_RADIUS) of
              None \<Rightarrow> None
            | Some normalizedDist \<Rightarrow>
                (let phase = (normalizedDist * 2 - age * 2) * PI in
                 case smoothstep (radius * 0.7) radius dist of
                   None \<Rightarrow> None
                 | Some e \<Rightarrow>
                     (let edgeFalloff = 1 - e in
                      case smoothstep MIN_RIPPLE_RADIUS (MIN_RIPPLE_RADIUS * 2) dist of
                        None \<Rightarrow> None
                      | Some startFalloff \<Rightarrow>
                          Some (sin phase *
                                rd_strength ripple *
                                RIPPLE_AMPLITUDE *
                                edgeFalloff *
                                startFalloff *
                                exp (- dist * RIPPLE_EDGE_SHARPNESS))))))"

text \<open>
  \<open>for (var i = 0; i < 128; i++) { totalRippleDistortion += calculateRipple(uv, ripples[i]); }\<close>,
  entered at index \<open>i\<close> with the running total.
\<close>

function ripple_loop ::
  "Uniforms \<Rightarrow> (nat \<Rightarrow> RippleData) \<Rightarrow> vec2f \<Rightarrow> nat \<Rightarrow> real \<Rightarrow> real option" where
  "ripple_loop uniforms buffer uv i totalRippleDistortion =
     (if i < 128 then
        (case calculateRipple uniforms uv (buffer i) of
           None \<Rightarrow> None
         | Some c \<Rightarrow> ripple_loop uniforms buffer uv (i + 1) (totalRippleDistortion + c))
      else Some totalRippleDistortion)"
  by pat_completeness auto
termination
  by (relation "measure (\<lambda>(uniforms, buffer, uv, i, total). 128 - i)") auto

declare ripple_loop.simps [simp del]

subsection \<open>Grid lines\<close>

text \<open>
  The values \<open>gridUV\<close>, \<open>distToLine\<close>, \<open>lineIntensity\<close> and \<open>finalColor\<close> that
  \<open>fragmentMain\<close> computes one after the other, each as a function of the one before;
  \<open>mix\<close> on colours is taken component by component.
\<close>

definition gridUV :: "vec2f \<Rightarrow> vec2f" where
  "gridUV distortedUV =
     (let scaledUV = (fst distortedUV * GRID_HORIZONTAL_SIZE,
                      snd distortedUV * GRID_VERTICAL_SIZE)
      in (fract (fst scaledUV), fract (snd scaledUV)))"

definition distToLine :: "vec2f \<Rightarrow> real" where
  "distToLine g = min (min (fst g) (1 - fst g)) (min (snd g) (1 - snd g))"

definition lineIntensity :: "real \<Rightarrow> real option" where
  "lineIntensity d = smoothstep LINE_WIDTH 0 d"

definition finalColor :: "real \<Rightarrow> vec3f" where
  "finalColor intensity =
     (let backgroundColor = (0.05, 0.05, 0.15);
          lineColor = (1, 1, 1)
      in case backgroundColor of (b1, b2, b3) \<Rightarrow> case lineColor of (l1, l2, l3) \<Rightarrow>
           (mix b1 l1 intensity, mix b2 l2 intensity, mix b3 l3 intensity))"

text \<open>The part of \<open>fragmentMain\<close> after the distorted coordinate is known.\<close>

definition gridColor :: "vec2f \<Rightarrow> vec4f option" where
  "gridColor distortedUV =
     (case lineIntensity (distToLine (gridUV distortedUV)) of
        None \<Rightarrow> None
      | Some intensity \<Rightarrow>
          (case finalColor intensity of (r, g, b) \<Rightarrow> Some (r, g, b, 1)))"

definition fragmentMain :: "Uniforms \<Rightarrow> (nat \<Rightarrow> RippleData) \<Rightarrow> vec2f \<Rightarrow> vec4f option" where
  "fragmentMain uniforms buffer uv =
     (let noise1 = perlin3d (fst uv * 12, snd uv * 12, time uniforms * ANIMATION_SPEED);
          noise2 = perlin3d (fst uv * 12 + 100, snd uv * 12 + 100, time uniforms * ANIMATION_SPEED)
      in case ripple_loop uniforms buffer uv 0 0 of
           None \<Rightarrow> None
         | Some totalRippleDistortion \<Rightarrow>
             (let distortedUV =
                    (fst uv + noise1 * DISTORTION_SCALE + totalRippleDistortion,
                     snd uv + noise2 * DISTORTION_SCALE + totalRippleDistortion)
              in gridColor distortedUV))"

subsection \<open>The hand-off from the ledger to the shader (src/main.js, \<open>frame\<close>)\<close>

text \<open>
  \<open>writeBuffer(rippleUniformBuffer, 0, rippleResult.data)\<close>: record \<open>i\<close> of the uniform
  array is made of the four floats from offset \<open>4 * i\<close>.
\<close>

definition upload :: "real list \<Rightarrow> nat \<Rightarrow> RippleData" where
  "upload d i = \<lparr> rd_position = (d ! (i * 4), d ! (i * 4 + 1)),
                  rd_strength = d ! (i * 4 + 2),
                  rd_startTime = d ! (i * 4 + 3) \<rparr>"

text \<open>The \<open>timeUniforms\<close> array of a frame.\<close>

definition timeUniforms :: "real \<Rightarrow> real \<Rightarrow> update_result \<Rightarrow> Uniforms" where
  "timeUniforms timestamp aspect rippleResult =
     \<lparr> time = timestamp / 1000, aspect_ratio = aspect,
       padding1 = real (activeCount rippleResult), padding2 = 0 \<rparr>"

section \<open>Auxiliary notions for the ledger\<close>

text \<open>The two loops are unfolded by hand, one iteration at a time.\<close>

declare update_pass.simps [simp del] clear_pass.simps [simp del]

text \<open>
  What the constructor establishes and every method keeps: the pool and the buffer have
  their fixed sizes, the cursor is inside the pool, and the two constants have the
  values the constructor gives them.
\<close>

definition ledger_inv :: "RippleManager \<Rightarrow> bool" where
  "ledger_inv s \<longleftrightarrow>
     0 < maxRipples s \<and> length (ripples s) = maxRipples s \<and>
     nextRippleIndex s < maxRipples s \<and> length (rippleData s) = maxRipples s * 4 \<and>
     minRippleInterval s = 25 \<and> maxAge s = 2"

text \<open>The effect of one iteration of the first loop of \<open>update\<close> on the slot it visits.\<close>

definition tick_ripple :: "real \<Rightarrow> real \<Rightarrow> ripple \<Rightarrow> ripple" where
  "tick_ripple mA ct r =
     (if \<not> active r then r
      else if ct - startTime r \<ge> mA then r \<lparr> active := False, strength := 0 \<rparr>
      else if 1 - (ct - startTime r) / mA > STRENGTH_THRESHOLD
        then r \<lparr> strength := 1 - (ct - startTime r) / mA \<rparr>
        else r \<lparr> strength := 1 - (ct - startTime r) / mA, active := False \<rparr>)"

text \<open>
  Writing record \<open>r\<close> as dense entry \<open>k\<close>, and the packing of the active records of a
  list of slots from entry \<open>k\<close> on, in the order of the list.
\<close>

definition store4 :: "nat \<Rightarrow> ripple \<Rightarrow> real list \<Rightarrow> real list" where
  "store4 k r d = d[k * 4 := px r, k * 4 + 1 := py r, k * 4 + 2 := strength r, k * 4 + 3 := startTime r]"

fun pack :: "nat \<Rightarrow> ripple list \<Rightarrow> real list \<Rightarrow> real list" where
  "pack k [] d = d"
| "pack k (r # rs) d = (if active r then pack (k + 1) rs (store4 k r d) else pack k rs d)"

text \<open>
  The dense array in closed form: entry \<open>j div 4\<close>, field \<open>j mod 4\<close>, is taken from
  the list \<open>A\<close> of active records while there are any; behind them the strength field
  is 0 and the other fields keep what the buffer \<open>d\<close> held.
\<close>

definition ripple_field :: "nat \<Rightarrow> ripple \<Rightarrow> real" where
  "ripple_field c r = (if c = 0 then px r else if c = 1 then py r else if c = 2 then strength r else startTime r)"

definition dense :: "nat \<Rightarrow> ripple list \<Rightarrow> real list \<Rightarrow> real list" where
  "dense n A d =
     map (\<lambda>j. if j div 4 < length A then ripple_field (j mod 4) (A ! (j div 4))
              else if j mod 4 = 2 \<and> j div 4 < n then 0
              else d ! j) [0..<length d]"

text \<open>The pool after \<open>update timestamp\<close>.\<close>

definition ticked :: "real \<Rightarrow> RippleManager \<Rightarrow> ripple list" where
  "ticked timestamp s = map (tick_ripple (maxAge s) (timestamp / 1000)) (ripples s)"

text \<open>
  The record an accepted insert writes, a sequence of inserts \<open>(x, y, timestamp)\<close>, and
  the condition that each insert of a sequence is at least 25 ms after the one before
  it (the first one after \<open>prev\<close>), so that every one of them is accepted.
\<close>

definition fresh :: "real \<times> real \<times> real \<Rightarrow> ripple" where
  "fresh c = (case c of (x, y, timestamp) \<Rightarrow>
     \<lparr> px = x, py = y, startTime = timestamp / 1000, strength = 1, active = True \<rparr>)"

fun addRipples :: "(real \<times> real \<times> real) list \<Rightarrow> RippleManager \<Rightarrow> js_error + RippleManager" where
  "addRipples [] s = Inr s"
| "addRipples ((x, y, timestamp) # cs) s =
     (case addRipple x y timestamp s of Inl e \<Rightarrow> Inl e | Inr s' \<Rightarrow> addRipples cs s')"

fun spaced :: "real \<Rightarrow> (real \<times> real \<times> real) list \<Rightarrow> bool" where
  "spaced prev [] = True"
| "spaced prev ((x, y, timestamp) # cs) = (25 \<le> timestamp - prev \<and> spaced timestamp cs)"

text \<open>A new ledger after \<open>addRipple(0.5, 0.5, 25)\<close>.\<close>

definition one_ripple :: RippleManager where
  "one_ripple =
     (new_RippleManager 128)
       \<lparr> ripples := (replicate 128 \<lparr> px = 0, py = 0, startTime = 0, strength = 0, active = False \<rparr>)
            [0 := \<lparr> px = 1/2, py = 1/2, startTime = 25 / 1000, strength = 1, active = True \<rparr>],
         nextRippleIndex := 1,
         lastRippleTime := 25 \<rparr>"

text \<open>The states the ledger can be in: \<open>new RippleManager()\<close> and any calls after it.\<close>

inductive reachable :: "RippleManager \<Rightarrow> bool" where
  reachable_new: "reachable (new_RippleManager 128)"
| reachable_addRipple:
    "reachable s \<Longrightarrow> addRipple x y timestamp s = Inr s' \<Longrightarrow> reachable s'"
| reachable_update:
    "reachable s \<Longrightarrow> update timestamp s = Inr (res, s') \<Longrightarrow> reachable s'"

text \<open>
  129 accepted inserts wrap the cursor: slot 0 then holds the newest record and slot 127
  the one before it, and the dense array starts with the newest and ends with the older.
\<close>

definition wrapped_inserts :: "(real \<times> real \<times> real) list" where
  "wrapped_inserts = map (\<lambda>k. (0, 0, 25 * real k)) [1..<130]"

text \<open>A slot as the constructor leaves it.\<close>

definition idle_slot :: ripple where
  "idle_slot = \<lparr> px = 0, py = 0, startTime = 0, strength = 0, active = False \<rparr>"

section \<open>Auxiliary notions for the field evaluator\<close>

text \<open>
  The values \<open>dist\<close> and \<open>radius\<close> of \<open>calculateRipple\<close> and the condition of its
  early exit, as functions of its inputs (\<open>calculateRipple_unfold\<close> below).
\<close>

definition ripple_dist :: "Uniforms \<Rightarrow> vec2f \<Rightarrow> RippleData \<Rightarrow> real" where
  "ripple_dist uniforms uv ripple =
     distance (fst uv * aspect_ratio uniforms, snd uv)
              (fst (rd_position ripple) * aspect_ratio uniforms, snd (rd_position ripple))"

definition ripple_radius :: "Uniforms \<Rightarrow> RippleData \<Rightarrow> real" where
  "ripple_radius uniforms ripple =
     min ((time uniforms - rd_startTime ripple) * RIPPLE_SPEED) MAX_RIPPLE_RADIUS"

definition early_exit :: "Uniforms \<Rightarrow> vec2f \<Rightarrow> RippleData \<Rightarrow> bool" where
  "early_exit uniforms uv ripple \<longleftrightarrow>
     ripple_dist uniforms uv ripple > ripple_radius uniforms ripple \<or>
     ripple_dist uniforms uv ripple < MIN_RIPPLE_RADIUS \<or>
     rd_strength ripple \<le> 0"

text \<open>
  The sum of \<open>calculateRipple\<close> over the first \<open>n\<close> entries of the buffer, in index
  order; one undefined contribution makes the sum undefined.
\<close>

definition add_contribution ::
  "Uniforms \<Rightarrow> (nat \<Rightarrow> RippleData) \<Rightarrow> vec2f \<Rightarrow> nat \<Rightarrow> real option \<Rightarrow> real option" where
  "add_contribution uniforms buffer uv i acc =
     (case acc of
        None \<Rightarrow> None
      | Some tot \<Rightarrow>
          (case calculateRipple uniforms uv (buffer i) of
             None \<Rightarrow> None
           | Some c \<Rightarrow> Some (tot + c)))"

definition sum_first :: "nat \<Rightarrow> Uniforms \<Rightarrow> (nat \<Rightarrow> RippleData) \<Rightarrow> vec2f \<Rightarrow> real option" where
  "sum_first n uniforms buffer uv = fold (add_contribution uniforms buffer uv) [0..<n] (Some 0)"

section \<open>Properties of the ledger\<close>

lemma update_slot_eq:
  assumes "i < length (ripples s)"
  shows "update_slot ct i s =
     Inr (let r' = tick_ripple (maxAge s) ct (ripples s ! i) in
          s \<lparr> ripples := (ripples s)[i := r'],
              rippleData := (if active r' then store4 (activeRippleCount s) r' (rippleData s) else rippleData s),
              activeRippleCount := (if active r' then activeRippleCount s + 1 else activeRippleCount s) \<rparr>)"
  using assms
  by (simp add: update_slot_def tick_ripple_def store4_def Let_def)

lemma update_pass_eq:
  "length (ripples s) = maxRipples s \<Longrightarrow> i \<le> maxRipples s \<Longrightarrow>
   update_pass ct i s =
     Inr (s \<lparr> ripples := take i (ripples s) @ map (tick_ripple (maxAge s) ct) (drop i (ripples s)),
              rippleData := pack (activeRippleCount s) (map (tick_ripple (maxAge s) ct) (drop i (ripples s))) (rippleData s),
              activeRippleCount := activeRippleCount s + length (filter active (map (tick_ripple (maxAge s) ct) (drop i (ripples s)))) \<rparr>)"
proof (induction ct i s rule: update_pass.induct)
  case (1 ct i s)
  show ?case
  proof (cases "i < maxRipples s")
    case False
    with 1 have "i = maxRipples s" by simp
    with 1 show ?thesis by (subst update_pass.simps) simp
  next
    case True
    let ?r = "tick_ripple (maxAge s) ct (ripples s ! i)"
    let ?s1 = "s \<lparr> ripples := (ripples s)[i := ?r],
              rippleData := (if active ?r then store4 (activeRippleCount s) ?r (rippleData s) else rippleData s),
              activeRippleCount := (if active ?r then activeRippleCount s + 1 else activeRippleCount s) \<rparr>"
    from True 1 have il: "i < length (ripples s)" by simp
    have step: "update_slot ct i s = Inr ?s1"
      using update_slot_eq[OF il] by (simp add: Let_def)
    have ih: "update_pass ct (i + 1) ?s1 = Inr (?s1 \<lparr> ripples := take (i + 1) (ripples ?s1) @ map (tick_ripple (maxAge ?s1) ct) (drop (i + 1) (ripples ?s1)),
              rippleData := pack (activeRippleCount ?s1) (map (tick_ripple (maxAge ?s1) ct) (drop (i + 1) (ripples ?s1))) (rippleData ?s1),
              activeRippleCount := activeRippleCount ?s1 + length (filter active (map (tick_ripple (maxAge ?s1) ct) (drop (i + 1) (ripples ?s1)))) \<rparr>)"
      using "1.IH"[OF True step] "1.prems" True by simp
    have d: "drop i (ripples s) = ripples s ! i # drop (Suc i) (ripples s)"
      using il by (simp add: Cons_nth_drop_Suc)
    have t: "take (Suc i) ((ripples s)[i := ?r]) = take i (ripples s) @ [?r]"
      using il by (simp add: take_Suc_conv_app_nth)
    show ?thesis
      apply (subst update_pass.simps)
      using True step ih d t by (simp)
  qed
qed

lemma length_store4 [simp]: "length (store4 k r d) = length d"
  by (simp add: store4_def)

lemma store4_nth:
  assumes j: "j < length d"
  shows "store4 k r d ! j = (if j div 4 = k then ripple_field (j mod 4) r else d ! j)"
proof -
  consider (a) "j = k * 4" | (b) "j = k * 4 + 1" | (c) "j = k * 4 + 2" | (d) "j = k * 4 + 3"
    | (e) "j div 4 \<noteq> k"
    by arith
  then show ?thesis
  proof cases
    case a
    then have dm: "j div 4 = k" "j mod 4 = 0" by arith+
    have v: "store4 k r d ! j = px r"
      using j a by (simp add: store4_def)
    show ?thesis unfolding dm v by (simp add: ripple_field_def)
  next
    case b
    then have dm: "j div 4 = k" "j mod 4 = 1" by arith+
    have v: "store4 k r d ! j = py r"
      using j b by (simp add: store4_def)
    show ?thesis unfolding dm v by (simp add: ripple_field_def)
  next
    case c
    then have dm: "j div 4 = k" "j mod 4 = 2" by arith+
    have v: "store4 k r d ! j = strength r"
      using j c by (simp add: store4_def)
    show ?thesis unfolding dm v by (simp add: ripple_field_def)
  next
    case d
    then have dm: "j div 4 = k" "j mod 4 = 3" by arith+
    have v: "store4 k r d ! j = startTime r"
      using j d by (simp add: store4_def)
    show ?thesis unfolding dm v by (simp add: ripple_field_def)
  next
    case e
    then have "j \<noteq> k * 4" "j \<noteq> k * 4 + 1" "j \<noteq> k * 4 + 2" "j \<noteq> k * 4 + 3"
      by arith+
    with e show ?thesis by (simp add: store4_def)
  qed
qed

lemma length_pack [simp]: "length (pack k rs d) = length d"
  by (induction rs arbitrary: k d) auto

lemma pack_nth:
  "j < length d \<Longrightarrow>
   pack k rs d ! j =
     (if k \<le> j div 4 \<and> j div 4 < k + length (filter active rs)
      then ripple_field (j mod 4) (filter active rs ! (j div 4 - k))
      else d ! j)"
proof (induction rs arbitrary: k d)
  case Nil
  then show ?case by simp
next
  case (Cons r rs)
  show ?case
  proof (cases "active r")
    case False
    with Cons show ?thesis by simp
  next
    case True
    let ?q = "j div 4" and ?A = "filter active rs"
    have A: "filter active (r # rs) = r # ?A"
      using True by simp
    have "pack k (r # rs) d ! j = pack (k + 1) rs (store4 k r d) ! j"
      using True by simp
    also have "\<dots> = (if k + 1 \<le> ?q \<and> ?q < k + 1 + length ?A
      then ripple_field (j mod 4) (?A ! (?q - (k + 1)))
      else store4 k r d ! j)"
      using Cons.IH[of "store4 k r d" "k + 1"] Cons.prems by simp
    also have "\<dots> = (if k \<le> ?q \<and> ?q < k + length (r # ?A)
      then ripple_field (j mod 4) ((r # ?A) ! (?q - k))
      else d ! j)"
    proof -
      consider (lt) "?q < k" | (eq) "?q = k" | (gt) "k < ?q" by arith
      then show ?thesis
      proof cases
        case lt
        then show ?thesis using Cons.prems by (simp add: store4_nth)
      next
        case eq
        then show ?thesis using Cons.prems by (simp add: store4_nth)
      next
        case gt
        then obtain m where m: "?q = k + 1 + m"
          using less_iff_Suc_add by auto
        have "?q \<noteq> k" using gt by simp
        then have "store4 k r d ! j = d ! j"
          using Cons.prems by (simp add: store4_nth)
        then show ?thesis unfolding m by simp
      qed
    qed
    finally show ?thesis unfolding A .
  qed
qed

lemma clear_pass_eq:
  "\<exists>d. clear_pass i s = s \<lparr> rippleData := d \<rparr> \<and> length d = length (rippleData s) \<and>
       (\<forall>j < length d. d ! j =
          (if j mod 4 = 2 \<and> i \<le> j div 4 \<and> j div 4 < maxRipples s then 0 else rippleData s ! j))"
proof (induction i s rule: clear_pass.induct)
  case (1 i s)
  show ?case
  proof (cases "i < maxRipples s")
    case False
    then have "clear_pass i s = s \<lparr> rippleData := rippleData s \<rparr>"
      by (subst clear_pass.simps) simp
    with False show ?thesis by (intro exI[of _ "rippleData s"]) simp
  next
    case True
    let ?s1 = "s \<lparr> rippleData := (rippleData s)[i * 4 + 2 := 0] \<rparr>"
    from "1.IH"[OF True refl] obtain d where
      d: "clear_pass (i + 1) ?s1 = ?s1 \<lparr> rippleData := d \<rparr>"
         "length d = length (rippleData ?s1)"
         "\<forall>j < length d. d ! j =
          (if j mod 4 = 2 \<and> i + 1 \<le> j div 4 \<and> j div 4 < maxRipples ?s1 then 0 else rippleData ?s1 ! j)"
      by blast
    have e: "clear_pass i s = s \<lparr> rippleData := d \<rparr>"
      using True d(1) by (subst clear_pass.simps) (simp add: Let_def)
    have "d ! j =
          (if j mod 4 = 2 \<and> i \<le> j div 4 \<and> j div 4 < maxRipples s then 0 else rippleData s ! j)"
      if j: "j < length d" for j
    proof (cases "j = i * 4 + 2")
      case True
      then have dm: "j mod 4 = 2" "j div 4 = i" by arith+
      have "d ! j = (rippleData s)[i * 4 + 2 := 0] ! j"
        using d(3) j dm by simp
      also have "\<dots> = 0"
        using j d(2) True by simp
      finally show ?thesis
        using dm \<open>i < maxRipples s\<close> by simp
    next
      case False
      then have ne: "\<not> (j mod 4 = 2 \<and> j div 4 = i)" by arith
      have c: "(j mod 4 = 2 \<and> i + 1 \<le> j div 4 \<and> j div 4 < maxRipples s) \<longleftrightarrow>
               (j mod 4 = 2 \<and> i \<le> j div 4 \<and> j div 4 < maxRipples s)"
        using ne by arith
      have "d ! j = (if j mod 4 = 2 \<and> i + 1 \<le> j div 4 \<and> j div 4 < maxRipples s then 0
                     else (rippleData s)[i * 4 + 2 := 0] ! j)"
        using d(3) j by simp
      also have "(rippleData s)[i * 4 + 2 := 0] ! j = rippleData s ! j"
        using False by simp
      finally show ?thesis unfolding c .
    qed
    then have "\<forall>j < length d. d ! j =
          (if j mod 4 = 2 \<and> i \<le> j div 4 \<and> j div 4 < maxRipples s then 0 else rippleData s ! j)"
      by blast
    with e d(2) show ?thesis by auto
  qed
qed

lemma length_dense [simp]: "length (dense n A d) = length d"
  by (simp add: dense_def)

lemma dense_nth:
  "j < length d \<Longrightarrow> dense n A d ! j =
     (if j div 4 < length A then ripple_field (j mod 4) (A ! (j div 4))
      else if j mod 4 = 2 \<and> j div 4 < n then 0
      else d ! j)"
  by (simp add: dense_def)

lemma update_eq:
  assumes len: "length (ripples s) = maxRipples s"
  shows "update timestamp s =
     Inr (\<lparr> data = dense (maxRipples s) (filter active (ticked timestamp s)) (rippleData s),
             activeCount = length (filter active (ticked timestamp s)) \<rparr>,
          s \<lparr> ripples := ticked timestamp s,
              rippleData := dense (maxRipples s) (filter active (ticked timestamp s)) (rippleData s),
              activeRippleCount := length (filter active (ticked timestamp s)) \<rparr>)"
proof -
  let ?R = "ticked timestamp s"
  let ?A = "filter active ?R"
  let ?s0 = "s \<lparr> activeRippleCount := 0 \<rparr>"
  let ?s1 = "s \<lparr> ripples := ?R, rippleData := pack 0 ?R (rippleData s), activeRippleCount := length ?A \<rparr>"
  have p: "update_pass (timestamp / 1000) 0 ?s0 = Inr ?s1"
    using update_pass_eq[of ?s0 0 "timestamp / 1000"] len by (simp add: ticked_def)
  obtain d where
    d: "clear_pass (length ?A) ?s1 = ?s1 \<lparr> rippleData := d \<rparr>"
       "length d = length (rippleData ?s1)"
       "\<forall>j < length d. d ! j =
          (if j mod 4 = 2 \<and> length ?A \<le> j div 4 \<and> j div 4 < maxRipples ?s1 then 0 else rippleData ?s1 ! j)"
    using clear_pass_eq[of "length ?A" ?s1] by blast
  have "d = dense (maxRipples s) ?A (rippleData s)"
  proof (rule nth_equalityI)
    show "length d = length (dense (maxRipples s) ?A (rippleData s))"
      using d(2) by simp
  next
    fix j assume "j < length d"
    then have j: "j < length (rippleData s)" using d(2) by simp
    have "d ! j = (if j mod 4 = 2 \<and> length ?A \<le> j div 4 \<and> j div 4 < maxRipples s then 0
                   else pack 0 ?R (rippleData s) ! j)"
      using d(3) \<open>j < length d\<close> by simp
    also have "pack 0 ?R (rippleData s) ! j =
       (if j div 4 < length ?A then ripple_field (j mod 4) (?A ! (j div 4)) else rippleData s ! j)"
      using pack_nth[OF j, of 0 ?R] by simp
    finally show "d ! j = dense (maxRipples s) ?A (rippleData s) ! j"
      using j by (simp add: dense_nth)
  qed
  with d(1) have c: "clear_pass (length ?A) ?s1 =
      s \<lparr> ripples := ?R, rippleData := dense (maxRipples s) ?A (rippleData s), activeRippleCount := length ?A \<rparr>"
    by simp
  show ?thesis
    unfolding update_def Let_def p using c by simp
qed

lemma tick_ripple_idem:
  "tick_ripple mA ct (tick_ripple mA ct r) = tick_ripple mA ct r"
  by (simp add: tick_ripple_def)

lemma dense_idem: "dense n A (dense n A d) = dense n A d"
  by (rule nth_equalityI) (simp_all add: dense_nth)

lemma ripple_overwrite:
  "(r :: ripple) \<lparr> px := x, py := y, startTime := t, strength := w, active := a \<rparr> =
   \<lparr> px = x, py = y, startTime = t, strength = w, active = a \<rparr>"
  by (cases r) simp

lemma addRipple_accept:
  assumes "ledger_inv s" "25 \<le> timestamp - lastRippleTime s"
  shows "addRipple x y timestamp s =
     Inr (s \<lparr> ripples := (ripples s)[nextRippleIndex s := fresh (x, y, timestamp)],
              nextRippleIndex := (nextRippleIndex s + 1) mod maxRipples s,
              lastRippleTime := timestamp \<rparr>)"
  using assms by (simp add: addRipple_def ledger_inv_def fresh_def ripple_overwrite)

lemma addRipple_drop:
  assumes "ledger_inv s" "timestamp - lastRippleTime s < 25"
  shows "addRipple x y timestamp s = Inr s"
  using assms by (simp add: addRipple_def ledger_inv_def)

lemma ledger_inv_addRipple:
  assumes "ledger_inv s" "addRipple x y timestamp s = Inr s'"
  shows "ledger_inv s' \<and> maxRipples s' = maxRipples s"
  using assms by (auto simp: addRipple_def ledger_inv_def split: if_splits)

lemma ledger_inv_update:
  assumes "ledger_inv s" "update timestamp s = Inr (res, s')"
  shows "ledger_inv s' \<and> maxRipples s' = maxRipples s"
proof -
  have "length (ripples s) = maxRipples s" using assms(1) by (simp add: ledger_inv_def)
  from update_eq[OF this, of timestamp] assms show ?thesis
    by (auto simp: ledger_inv_def ticked_def)
qed

lemma ledger_inv_new: "0 < n \<Longrightarrow> ledger_inv (new_RippleManager n)"
  by (simp add: ledger_inv_def new_RippleManager_def)

lemma mod_shift_ne:
  fixes c m n :: nat
  assumes "c < n" "0 < m" "m < n"
  shows "(c + m) mod n \<noteq> c"
proof (cases "c + m < n")
  case True
  then show ?thesis using assms by simp
next
  case False
  then have "(c + m) mod n = c + m - n"
    using assms by (simp add: mod_if)
  then show ?thesis using assms False by simp
qed

lemma addRipples_spec:
  "ledger_inv s \<Longrightarrow> spaced (lastRippleTime s) cs \<Longrightarrow>
   \<exists>s'. addRipples cs s = Inr s' \<and> ledger_inv s' \<and> maxRipples s' = maxRipples s \<and>
        nextRippleIndex s' = (nextRippleIndex s + length cs) mod maxRipples s \<and>
        rippleData s' = rippleData s \<and>
        (\<forall>j < length cs. length cs - j \<le> maxRipples s \<longrightarrow>
           ripples s' ! ((nextRippleIndex s + j) mod maxRipples s) = fresh (cs ! j)) \<and>
        (\<forall>i < maxRipples s. (\<forall>j < length cs. (nextRippleIndex s + j) mod maxRipples s \<noteq> i) \<longrightarrow>
           ripples s' ! i = ripples s ! i)"
proof (induction cs arbitrary: s)
  case Nil
  then show ?case by (simp add: ledger_inv_def)
next
  case (Cons c cs)
  obtain x y t where c: "c = (x, y, t)" by (cases c) auto
  let ?n = "maxRipples s" and ?c0 = "nextRippleIndex s"
  let ?s1 = "s \<lparr> ripples := (ripples s)[?c0 := fresh (x, y, t)],
              nextRippleIndex := (?c0 + 1) mod ?n,
              lastRippleTime := t \<rparr>"
  from Cons.prems c have acc: "25 \<le> t - lastRippleTime s" and sp: "spaced t cs" by simp_all
  have a1: "addRipple x y t s = Inr ?s1"
    using addRipple_accept[OF Cons.prems(1) acc] .
  have inv1: "ledger_inv ?s1" and n1: "maxRipples ?s1 = ?n"
    using ledger_inv_addRipple[OF Cons.prems(1) a1] by simp_all
  have c0: "?c0 < ?n" and len: "length (ripples s) = ?n" and npos: "0 < ?n"
    using Cons.prems(1) by (simp_all add: ledger_inv_def)
  from Cons.IH[OF inv1] sp obtain s' where
    s': "addRipples cs ?s1 = Inr s'" "ledger_inv s'" "maxRipples s' = ?n"
        "nextRippleIndex s' = ((?c0 + 1) mod ?n + length cs) mod ?n"
        "rippleData s' = rippleData s"
        "\<forall>j < length cs. length cs - j \<le> ?n \<longrightarrow>
           ripples s' ! (((?c0 + 1) mod ?n + j) mod ?n) = fresh (cs ! j)"
        "\<forall>i < ?n. (\<forall>j < length cs. ((?c0 + 1) mod ?n + j) mod ?n \<noteq> i) \<longrightarrow>
           ripples s' ! i = ripples ?s1 ! i"
    by auto
  have shift: "((?c0 + 1) mod ?n + j) mod ?n = (?c0 + Suc j) mod ?n" for j
    by (simp add: mod_add_left_eq)
  have r: "addRipples (c # cs) s = Inr s'"
    using a1 s'(1) c by simp
  have cur: "nextRippleIndex s' = (?c0 + length (c # cs)) mod ?n"
    using s'(4) shift[of "length cs"] by simp
  have hit: "ripples s' ! ((?c0 + j) mod ?n) = fresh ((c # cs) ! j)"
    if j: "j < length (c # cs)" "length (c # cs) - j \<le> ?n" for j
  proof (cases j)
    case (Suc j')
    with j have "j' < length cs" "length cs - j' \<le> ?n" by simp_all
    with s'(6) have "ripples s' ! (((?c0 + 1) mod ?n + j') mod ?n) = fresh (cs ! j')" by blast
    then show ?thesis using Suc shift[of j'] by simp
  next
    case 0
    with j have short: "length cs < ?n" by simp
    have "\<forall>j' < length cs. ((?c0 + 1) mod ?n + j') mod ?n \<noteq> ?c0"
    proof (intro allI impI)
      fix j' assume "j' < length cs"
      then have "Suc j' < ?n" using short by simp
      from mod_shift_ne[OF c0 _ this] show "((?c0 + 1) mod ?n + j') mod ?n \<noteq> ?c0"
        unfolding shift by simp
    qed
    with s'(7) c0 have "ripples s' ! ?c0 = ripples ?s1 ! ?c0" by blast
    also have "\<dots> = fresh (x, y, t)" using c0 len by simp
    finally show ?thesis using 0 c c0 by simp
  qed
  have miss: "ripples s' ! i = ripples s ! i"
    if i: "i < ?n" "\<forall>j < length (c # cs). (?c0 + j) mod ?n \<noteq> i" for i
  proof -
    have "\<forall>j' < length cs. ((?c0 + 1) mod ?n + j') mod ?n \<noteq> i"
      using i(2) unfolding shift by auto
    with s'(7) i(1) have "ripples s' ! i = ripples ?s1 ! i" by blast
    moreover have "?c0 \<noteq> i" using i(2)[rule_format, of 0] c0 by simp
    ultimately show ?thesis by simp
  qed
  show ?case
    using r s'(2,3,5) cur hit miss by blast
qed

lemma slots_covered:
  fixes c n a i :: nat
  assumes n: "0 < n" and i: "i < n"
  shows "\<exists>j. a \<le> j \<and> j < a + n \<and> (c + j) mod n = i"
proof -
  let ?f = "\<lambda>j. (c + j) mod n"
  have inj: "inj_on ?f {a..<a + n}"
  proof (rule inj_onI)
    fix j j' assume jj: "j \<in> {a..<a + n}" "j' \<in> {a..<a + n}" and e: "?f j = ?f j'"
    show "j = j'"
    proof (rule ccontr)
      assume ne: "j \<noteq> j'"
      have k: "False" if lt: "u < v" "v - u < n" and eq: "(c + u) mod n = (c + v) mod n" for u v :: nat
      proof -
        have "n dvd (c + v) - (c + u)"
          using mod_eq_dvd_iff_nat[of "c + u" "c + v" n] eq lt(1) by simp
        then have "n dvd v - u" by simp
        moreover have "0 < v - u" using lt(1) by simp
        ultimately show False using lt(2) by (simp add: nat_dvd_not_less)
      qed
      from ne consider "j < j'" | "j' < j" by arith
      then show False
      proof cases
        case 1
        moreover have "j' - j < n" using jj by auto
        ultimately show False using k[of j j'] e by simp
      next
        case 2
        moreover have "j - j' < n" using jj by auto
        ultimately show False using k[of j' j] e by simp
      qed
    qed
  qed
  have "?f ` {a..<a + n} \<subseteq> {0..<n}" using n by auto
  moreover have "card (?f ` {a..<a + n}) = card {0..<n}"
    using card_image[OF inj] by simp
  ultimately have "?f ` {a..<a + n} = {0..<n}"
    by (intro card_subset_eq) simp_all
  with i have "i \<in> ?f ` {a..<a + n}" by simp
  then show ?thesis by auto
qed

text \<open>
  Claim C1. An insert at least 25 ms after the last accepted one overwrites exactly the
  slot at the write cursor with a fresh record (strength 1, active, the given position,
  start time \<open>timestamp / 1000\<close>), advances the cursor by one modulo the capacity and
  records the timestamp. With capacity 128, after 130 accepted inserts the pool holds
  exactly the records of the 128 most recent insertions: each of insertions 2..129 sits
  in its slot, every slot holds one of them, and the slots of insertions 0 and 1 hold
  insertions 128 and 129.
\<close>

theorem addRipple_overwrites_cursor_slot:
  assumes inv: "ledger_inv s"
  shows "(25 \<le> timestamp - lastRippleTime s \<longrightarrow>
            addRipple x y timestamp s =
              Inr (s \<lparr> ripples := (ripples s)
                         [nextRippleIndex s :=
                            \<lparr> px = x, py = y, startTime = timestamp / 1000,
                              strength = 1, active = True \<rparr>],
                       nextRippleIndex := (nextRippleIndex s + 1) mod maxRipples s,
                       lastRippleTime := timestamp \<rparr>)) \<and>
         (maxRipples s = 128 \<and> length cs = 130 \<and> spaced (lastRippleTime s) cs \<longrightarrow>
            (\<exists>s'. addRipples cs s = Inr s' \<and> length (ripples s') = 128 \<and>
               (\<forall>j. 2 \<le> j \<and> j < 130 \<longrightarrow>
                  ripples s' ! ((nextRippleIndex s + j) mod 128) = fresh (cs ! j)) \<and>
               (\<forall>i < 128. \<exists>j. 2 \<le> j \<and> j < 130 \<and> ripples s' ! i = fresh (cs ! j)) \<and>
               ripples s' ! (nextRippleIndex s mod 128) = fresh (cs ! 128) \<and>
               ripples s' ! ((nextRippleIndex s + 1) mod 128) = fresh (cs ! 129)))"
proof (intro conjI impI)
  assume "25 \<le> timestamp - lastRippleTime s"
  from addRipple_accept[OF inv this]
  show "addRipple x y timestamp s =
              Inr (s \<lparr> ripples := (ripples s)
                         [nextRippleIndex s :=
                            \<lparr> px = x, py = y, startTime = timestamp / 1000,
                              strength = 1, active = True \<rparr>],
                       nextRippleIndex := (nextRippleIndex s + 1) mod maxRipples s,
                       lastRippleTime := timestamp \<rparr>)"
    by (simp add: fresh_def)
next
  assume a: "maxRipples s = 128 \<and> length cs = 130 \<and> spaced (lastRippleTime s) cs"
  let ?c = "nextRippleIndex s"
  from a have sp: "spaced (lastRippleTime s) cs" and n: "maxRipples s = 128"
    and l: "length cs = 130" by simp_all
  from addRipples_spec[OF inv sp] obtain s' where
    s0: "addRipples cs s = Inr s'" "ledger_inv s'" "maxRipples s' = maxRipples s"
        "\<forall>j < length cs. length cs - j \<le> maxRipples s \<longrightarrow>
           ripples s' ! ((?c + j) mod maxRipples s) = fresh (cs ! j)"
    by blast
  have s': "addRipples cs s = Inr s'" "ledger_inv s'" "maxRipples s' = 128"
        "\<forall>j < 130. 130 - j \<le> 128 \<longrightarrow> ripples s' ! ((?c + j) mod 128) = fresh (cs ! j)"
    using s0 n l by simp_all
  have hit: "ripples s' ! ((?c + j) mod 128) = fresh (cs ! j)" if "2 \<le> j" "j < 130" for j
    using s'(4) that by simp
  have len: "length (ripples s') = 128"
    using s'(2,3) by (simp add: ledger_inv_def)
  have cover: "\<exists>j. 2 \<le> j \<and> j < 130 \<and> ripples s' ! i = fresh (cs ! j)" if i: "i < 128" for i
  proof -
    from slots_covered[of 128 i 2 ?c] i obtain j where
      j: "2 \<le> j" "j < 130" "(?c + j) mod 128 = i" by auto
    with hit[of j] show ?thesis by auto
  qed
  have o0: "ripples s' ! (?c mod 128) = fresh (cs ! 128)"
    using hit[of 128] by simp
  have o1: "ripples s' ! ((?c + 1) mod 128) = fresh (cs ! 129)"
  proof -
    have "?c + 129 = (?c + 1) + 128" by simp
    then have "(?c + 129) mod 128 = (?c + 1) mod 128"
      by (simp only: mod_add_self2)
    with hit[of 129] show ?thesis by simp
  qed
  show "\<exists>s'. addRipples cs s = Inr s' \<and> length (ripples s') = 128 \<and>
               (\<forall>j. 2 \<le> j \<and> j < 130 \<longrightarrow>
                  ripples s' ! ((nextRippleIndex s + j) mod 128) = fresh (cs ! j)) \<and>
               (\<forall>i < 128. \<exists>j. 2 \<le> j \<and> j < 130 \<and> ripples s' ! i = fresh (cs ! j)) \<and>
               ripples s' ! (nextRippleIndex s mod 128) = fresh (cs ! 128) \<and>
               ripples s' ! ((nextRippleIndex s + 1) mod 128) = fresh (cs ! 129)"
  proof (intro exI[of _ s'] conjI allI impI)
    show "addRipples cs s = Inr s'" by (rule s'(1))
    show "length (ripples s') = 128" by (rule len)
    show "ripples s' ! ((?c + j) mod 128) = fresh (cs ! j)" if "2 \<le> j \<and> j < 130" for j
      using hit that by blast
    show "\<exists>j. 2 \<le> j \<and> j < 130 \<and> ripples s' ! i = fresh (cs ! j)" if "i < 128" for i
      using cover that by blast
    show "ripples s' ! (?c mod 128) = fresh (cs ! 128)" by (rule o0)
    show "ripples s' ! ((?c + 1) mod 128) = fresh (cs ! 129)" by (rule o1)
  qed
qed

text \<open>
  Claim C4. An insert less than 25 ms after the last accepted one is dropped: the call
  returns the ledger state it was given, so the pool, the write cursor, the last insert
  timestamp and the output buffer are unchanged.
\<close>

theorem addRipple_rate_limited_no_change:
  assumes "ledger_inv s" "timestamp - lastRippleTime s < 25"
  shows "addRipple x y timestamp s = Inr s"
  using assms by (rule addRipple_drop)

theorem addRipple_rate_limited_no_change_witness:
  "ledger_inv (new_RippleManager 128) \<and> 10 - lastRippleTime (new_RippleManager 128) < 25 \<and>
   addRipple (1/2) (1/2) 10 (new_RippleManager 128) = Inr (new_RippleManager 128)"
proof -
  have i: "ledger_inv (new_RippleManager 128)" by (simp add: ledger_inv_new)
  have l: "10 - lastRippleTime (new_RippleManager 128) < 25" by (simp add: new_RippleManager_def)
  from addRipple_rate_limited_no_change[OF i l] i l show ?thesis by simp
qed

lemma spaced_steps:
  "spaced (25 * real a) (map (\<lambda>k. (0, 0, 25 * real k)) [Suc a..<Suc a + n])"
proof (induction n arbitrary: a)
  case 0
  show ?case by simp
next
  case (Suc n)
  have "[Suc a..<Suc a + Suc n] = Suc a # [Suc (Suc a)..<Suc (Suc a) + n]"
    by (simp add: upt_conv_Cons)
  with Suc[of "Suc a"] show ?case by simp
qed

theorem addRipple_overwrites_cursor_slot_witness:
  "ledger_inv (new_RippleManager 128) \<and>
   25 \<le> 25 - lastRippleTime (new_RippleManager 128) \<and>
   addRipple (1/2) (1/2) 25 (new_RippleManager 128) =
     Inr ((new_RippleManager 128)
            \<lparr> ripples := (replicate 128 \<lparr> px = 0, py = 0, startTime = 0, strength = 0, active = False \<rparr>)
                 [0 := \<lparr> px = 1/2, py = 1/2, startTime = 25 / 1000, strength = 1, active = True \<rparr>],
              nextRippleIndex := 1,
              lastRippleTime := 25 \<rparr>) \<and>
   maxRipples (new_RippleManager 128) = 128 \<and>
   length (map (\<lambda>k. (0::real, 0::real, 25 * real k)) [1..<131]) = 130 \<and>
   spaced (lastRippleTime (new_RippleManager 128)) (map (\<lambda>k. (0, 0, 25 * real k)) [1..<131]) \<and>
   (\<exists>s'. addRipples (map (\<lambda>k. (0, 0, 25 * real k)) [1..<131]) (new_RippleManager 128) = Inr s' \<and>
      length (ripples s') = 128 \<and>
      ripples s' ! 0 = \<lparr> px = 0, py = 0, startTime = 3225 / 1000, strength = 1, active = True \<rparr> \<and>
      ripples s' ! 1 = \<lparr> px = 0, py = 0, startTime = 3250 / 1000, strength = 1, active = True \<rparr> \<and>
      ripples s' ! 2 = \<lparr> px = 0, py = 0, startTime = 75 / 1000, strength = 1, active = True \<rparr>)"
proof -
  let ?s = "new_RippleManager 128"
  let ?cs = "map (\<lambda>k. (0::real, 0::real, 25 * real k)) [1..<131]"
  have i: "ledger_inv ?s" by (simp add: ledger_inv_new)
  have a: "25 \<le> 25 - lastRippleTime ?s" by (simp add: new_RippleManager_def)
  have n: "maxRipples ?s = 128" by (simp add: new_RippleManager_def)
  have c: "nextRippleIndex ?s = 0" by (simp add: new_RippleManager_def)
  have l: "length ?cs = 130" by simp
  have sp: "spaced (lastRippleTime ?s) ?cs"
    using spaced_steps[of 0 130] by (simp add: new_RippleManager_def)
  have e: "?cs ! 128 = (0, 0, 3225)" "?cs ! 129 = (0, 0, 3250)" "?cs ! 2 = (0, 0, 75)"
    by simp_all
  note th = addRipple_overwrites_cursor_slot[OF i, of 25 "1/2" "1/2" ?cs]
  from th a have one: "addRipple (1/2) (1/2) 25 ?s =
     Inr (?s \<lparr> ripples := (ripples ?s)
                 [nextRippleIndex ?s := \<lparr> px = 1/2, py = 1/2, startTime = 25 / 1000, strength = 1, active = True \<rparr>],
              nextRippleIndex := (nextRippleIndex ?s + 1) mod maxRipples ?s,
              lastRippleTime := 25 \<rparr>)"
    by blast
  from th n l sp obtain s' where
    s': "addRipples ?cs ?s = Inr s'" "length (ripples s') = 128"
        "\<forall>j. 2 \<le> j \<and> j < 130 \<longrightarrow> ripples s' ! ((nextRippleIndex ?s + j) mod 128) = fresh (?cs ! j)"
        "ripples s' ! (nextRippleIndex ?s mod 128) = fresh (?cs ! 128)"
        "ripples s' ! ((nextRippleIndex ?s + 1) mod 128) = fresh (?cs ! 129)"
    by blast
  have r0: "ripples s' ! 0 = \<lparr> px = 0, py = 0, startTime = 3225 / 1000, strength = 1, active = True \<rparr>"
    using s'(4) unfolding c e by (simp add: fresh_def)
  have r1: "ripples s' ! 1 = \<lparr> px = 0, py = 0, startTime = 3250 / 1000, strength = 1, active = True \<rparr>"
    using s'(5) unfolding c e by (simp add: fresh_def)
  have r2: "ripples s' ! 2 = \<lparr> px = 0, py = 0, startTime = 75 / 1000, strength = 1, active = True \<rparr>"
    using s'(3)[rule_format, of 2] unfolding c e by (simp add: fresh_def numeral_2_eq_2)
  have one': "addRipple (1/2) (1/2) 25 ?s =
     Inr (?s \<lparr> ripples := (replicate 128 \<lparr> px = 0, py = 0, startTime = 0, strength = 0, active = False \<rparr>)
                 [0 := \<lparr> px = 1/2, py = 1/2, startTime = 25 / 1000, strength = 1, active = True \<rparr>],
              nextRippleIndex := 1,
              lastRippleTime := 25 \<rparr>)"
    unfolding one by (simp add: new_RippleManager_def)
  show ?thesis
    using i a one' n l sp s'(1,2) r0 r1 r2 by blast
qed

lemma ticked_nth:
  "i < length (ripples s) \<Longrightarrow>
   ticked timestamp s ! i = tick_ripple (maxAge s) (timestamp / 1000) (ripples s ! i)"
  by (simp add: ticked_def)

lemma length_ticked [simp]: "length (ticked timestamp s) = length (ripples s)"
  by (simp add: ticked_def)

text \<open>
  Claim C2. For an active record and a call \<open>update timestamp\<close>, with
  \<open>age = timestamp / 1000 - startTime\<close>: when \<open>age \<ge> maxAge\<close> (2 s) the record
  is deactivated and its strength set to 0; otherwise its strength becomes
  \<open>1 - age / maxAge\<close>, and the record stays active exactly when that strength is above
  0.01. The affine value is strictly decreasing in the age and is \<open>\<le> 0\<close> at
  \<open>age = maxAge\<close>. Position and start time are not touched.
\<close>

theorem update_ages_active_record:
  assumes "ledger_inv s" "i < maxRipples s" "active (ripples s ! i)"
  shows "\<exists>res s'. update timestamp s = Inr (res, s') \<and>
           (let r = ripples s ! i; r' = ripples s' ! i;
                age = timestamp / 1000 - startTime r
            in (if age \<ge> maxAge s then \<not> active r' \<and> strength r' = 0
                else strength r' = 1 - age / maxAge s \<and>
                     (active r' \<longleftrightarrow> strength r' > 0.01)) \<and>
               px r' = px r \<and> py r' = py r \<and> startTime r' = startTime r) \<and>
           maxAge s = 2 \<and>
           (\<forall>a b :: real. a < b \<longrightarrow> 1 - b / maxAge s < 1 - a / maxAge s) \<and>
           1 - maxAge s / maxAge s \<le> 0"
proof -
  have len: "length (ripples s) = maxRipples s" and m: "maxAge s = 2"
    using assms(1) by (simp_all add: ledger_inv_def)
  have i: "i < length (ripples s)" using assms(2) len by simp
  let ?R = "ticked timestamp s"
  let ?d = "dense (maxRipples s) (filter active ?R) (rippleData s)"
  let ?res = "\<lparr> data = ?d, activeCount = length (filter active ?R) \<rparr>"
  let ?s' = "s \<lparr> ripples := ?R, rippleData := ?d, activeRippleCount := length (filter active ?R) \<rparr>"
  have u: "update timestamp s = Inr (?res, ?s')"
    by (rule update_eq[OF len])
  have r': "ripples ?s' ! i = tick_ripple 2 (timestamp / 1000) (ripples s ! i)"
    using ticked_nth[OF i, of timestamp] m by simp
  have body: "(let r = ripples s ! i; r' = ripples ?s' ! i;
                age = timestamp / 1000 - startTime r
            in (if age \<ge> maxAge s then \<not> active r' \<and> strength r' = 0
                else strength r' = 1 - age / maxAge s \<and>
                     (active r' \<longleftrightarrow> strength r' > 0.01)) \<and>
               px r' = px r \<and> py r' = py r \<and> startTime r' = startTime r)"
    unfolding Let_def r' m using assms(3)
    by (simp add: tick_ripple_def STRENGTH_THRESHOLD_def)
  have mono: "\<forall>a b :: real. a < b \<longrightarrow> 1 - b / maxAge s < 1 - a / maxAge s"
    unfolding m by simp
  have z: "1 - maxAge s / maxAge s \<le> 0"
    unfolding m by simp
  show ?thesis
    using u body m mono z by blast
qed

text \<open>
  Claim C6. Calling \<open>update\<close> twice with the same timestamp, with no insert in
  between, returns the same active count and the same dense array on the second call.
\<close>

theorem update_idempotent:
  assumes "ledger_inv s"
  shows "\<exists>res s'. update timestamp s = Inr (res, s') \<and>
           (\<exists>res2 s2. update timestamp s' = Inr (res2, s2) \<and>
              activeCount res2 = activeCount res \<and> data res2 = data res)"
proof -
  have len: "length (ripples s) = maxRipples s"
    using assms by (simp add: ledger_inv_def)
  let ?R = "ticked timestamp s"
  let ?d = "dense (maxRipples s) (filter active ?R) (rippleData s)"
  let ?res = "\<lparr> data = ?d, activeCount = length (filter active ?R) \<rparr>"
  let ?s' = "s \<lparr> ripples := ?R, rippleData := ?d, activeRippleCount := length (filter active ?R) \<rparr>"
  have u: "update timestamp s = Inr (?res, ?s')"
    by (rule update_eq[OF len])
  have len': "length (ripples ?s') = maxRipples ?s'"
    using len by simp
  have R': "ticked timestamp ?s' = ?R"
    by (simp add: ticked_def tick_ripple_idem)
  have u': "update timestamp ?s' = Inr (?res, ?s')"
    using update_eq[OF len', of timestamp] unfolding R' by (simp add: dense_idem)
  show ?thesis
    using u u' by blast
qed

lemma one_ripple_inv: "ledger_inv one_ripple"
  by (simp add: one_ripple_def ledger_inv_def new_RippleManager_def)

lemma one_ripple_slot0:
  "ripples one_ripple ! 0 = \<lparr> px = 1/2, py = 1/2, startTime = 25 / 1000, strength = 1, active = True \<rparr>"
  by (simp add: one_ripple_def)

theorem update_ages_active_record_witness:
  "ledger_inv one_ripple \<and> 0 < maxRipples one_ripple \<and> active (ripples one_ripple ! 0) \<and>
   (\<exists>res s'. update 1025 one_ripple = Inr (res, s') \<and>
      strength (ripples s' ! 0) = 1/2 \<and> active (ripples s' ! 0)) \<and>
   (\<exists>res s'. update 2025 one_ripple = Inr (res, s') \<and>
      strength (ripples s' ! 0) = 0 \<and> \<not> active (ripples s' ! 0))"
proof -
  have n: "0 < maxRipples one_ripple"
    by (simp add: one_ripple_def new_RippleManager_def)
  have a: "active (ripples one_ripple ! 0)"
    by (simp add: one_ripple_slot0)
  have m: "maxAge one_ripple = 2"
    by (simp add: one_ripple_def new_RippleManager_def)
  from update_ages_active_record[OF one_ripple_inv n a, of 1025]
  have h: "\<exists>res s'. update 1025 one_ripple = Inr (res, s') \<and>
      strength (ripples s' ! 0) = 1/2 \<and> active (ripples s' ! 0)"
    unfolding one_ripple_slot0 m Let_def by auto
  from update_ages_active_record[OF one_ripple_inv n a, of 2025]
  have e: "\<exists>res s'. update 2025 one_ripple = Inr (res, s') \<and>
      strength (ripples s' ! 0) = 0 \<and> \<not> active (ripples s' ! 0)"
    unfolding one_ripple_slot0 m Let_def by auto
  show ?thesis using one_ripple_inv n a h e by blast
qed

theorem update_idempotent_witness:
  "ledger_inv one_ripple \<and>
   (\<exists>res s'. update 1025 one_ripple = Inr (res, s') \<and>
           (\<exists>res2 s2. update 1025 s' = Inr (res2, s2) \<and>
              activeCount res2 = activeCount res \<and> data res2 = data res))"
  using update_idempotent[OF one_ripple_inv, of 1025] one_ripple_inv by blast

lemma reachable_inv: "reachable s \<Longrightarrow> ledger_inv s \<and> maxRipples s = 128"
proof (induction rule: reachable.induct)
  case reachable_new
  show ?case by (simp add: ledger_inv_new) (simp add: new_RippleManager_def)
next
  case (reachable_addRipple s x y timestamp s')
  then show ?case using ledger_inv_addRipple by metis
next
  case (reachable_update s timestamp res s')
  then show ?case using ledger_inv_update by metis
qed

lemma filter_by_index:
  "filter P xs = map (nth xs) (filter (\<lambda>i. P (xs ! i)) [0..<length xs])"
proof -
  have "filter P xs = filter P (map (nth xs) [0..<length xs])"
    by (simp add: map_nth)
  also have "\<dots> = map (nth xs) (filter (P \<circ> nth xs) [0..<length xs])"
    by (simp only: filter_map)
  finally show ?thesis by (simp add: comp_def)
qed

lemma dense_entry:
  assumes "k * 4 + c < length d" "c < 4"
  shows "dense n A d ! (k * 4 + c) =
     (if k < length A then ripple_field c (A ! k)
      else if c = 2 \<and> k < n then 0 else d ! (k * 4 + c))"
proof -
  have dm: "(k * 4 + c) div 4 = k" "(k * 4 + c) mod 4 = c"
    using assms(2) by simp_all
  show ?thesis
    unfolding dense_nth[OF assms(1)] dm ..
qed

text \<open>
  Claim C3. For every state reachable from \<open>new RippleManager()\<close> by inserts and
  ticks, and every timestamp, \<open>update\<close> returns a count of at most 128; entry \<open>k\<close>
  of the dense array is the record of the \<open>k\<close>-th active pool slot in increasing slot
  index (whatever the insertion times are); and every entry from the count on has its
  strength field (offset 2) equal to 0.
\<close>

theorem update_packs_in_slot_order:
  assumes "reachable s"
  shows "\<exists>res s'. update timestamp s = Inr (res, s') \<and>
           activeCount res \<le> 128 \<and> length (data res) = 512 \<and>
           (let idx = filter (\<lambda>i. active (ripples s' ! i)) [0..<128] in
              length idx = activeCount res \<and> sorted_wrt (<) idx \<and>
              (\<forall>k < activeCount res.
                 data res ! (k * 4) = px (ripples s' ! (idx ! k)) \<and>
                 data res ! (k * 4 + 1) = py (ripples s' ! (idx ! k)) \<and>
                 data res ! (k * 4 + 2) = strength (ripples s' ! (idx ! k)) \<and>
                 data res ! (k * 4 + 3) = startTime (ripples s' ! (idx ! k)))) \<and>
           (\<forall>k. activeCount res \<le> k \<and> k < 128 \<longrightarrow> data res ! (k * 4 + 2) = 0)"
proof -
  from reachable_inv[OF assms] have inv: "ledger_inv s" and n: "maxRipples s = 128"
    by simp_all
  have len: "length (ripples s) = maxRipples s" and dlen: "length (rippleData s) = 512"
    using inv n by (simp_all add: ledger_inv_def)
  let ?R = "ticked timestamp s"
  let ?A = "filter active ?R"
  let ?d = "dense (maxRipples s) ?A (rippleData s)"
  let ?res = "\<lparr> data = ?d, activeCount = length ?A \<rparr>"
  let ?s' = "s \<lparr> ripples := ?R, rippleData := ?d, activeRippleCount := length ?A \<rparr>"
  let ?idx = "filter (\<lambda>i. active (?R ! i)) [0..<128]"
  have u: "update timestamp s = Inr (?res, ?s')"
    by (rule update_eq[OF len])
  have lR: "length ?R = 128" using len n by simp
  have A: "?A = map (nth ?R) ?idx"
    using filter_by_index[of active ?R] lR by simp
  have lA: "length ?idx = length ?A"
    using A by (metis length_map)
  have cnt: "length ?A \<le> 128"
    using length_filter_le[of active ?R] lR by simp
  have srt: "sorted_wrt (<) ?idx"
    by (rule sorted_wrt_filter) simp
  have Ak: "?A ! k = ?R ! (?idx ! k)" if "k < length ?A" for k
  proof -
    have "?A ! k = map (nth ?R) ?idx ! k" using A by simp
    also have "\<dots> = ?R ! (?idx ! k)" using that lA by simp
    finally show ?thesis .
  qed
  have ent: "?d ! (k * 4 + c) = ripple_field c (?R ! (?idx ! k))"
    if "k < length ?A" "c < 4" for k c
  proof -
    have "k * 4 + c < length (rippleData s)" using that cnt dlen by simp
    from dense_entry[OF this that(2), of "maxRipples s" ?A] that(1) Ak[OF that(1)]
    show ?thesis by simp
  qed
  have tail: "?d ! (k * 4 + 2) = 0" if "length ?A \<le> k" "k < 128" for k
  proof -
    have "k * 4 + 2 < length (rippleData s)" using that dlen by simp
    from dense_entry[OF this, of "maxRipples s" ?A] that n
    show ?thesis by simp
  qed
  have packed: "\<forall>k < length ?A.
                 ?d ! (k * 4) = px (?R ! (?idx ! k)) \<and>
                 ?d ! (k * 4 + 1) = py (?R ! (?idx ! k)) \<and>
                 ?d ! (k * 4 + 2) = strength (?R ! (?idx ! k)) \<and>
                 ?d ! (k * 4 + 3) = startTime (?R ! (?idx ! k))"
  proof (intro allI impI)
    fix k assume k: "k < length ?A"
    from ent[OF k, of 0] ent[OF k, of 1] ent[OF k, of 2] ent[OF k, of 3]
    show "?d ! (k * 4) = px (?R ! (?idx ! k)) \<and>
                 ?d ! (k * 4 + 1) = py (?R ! (?idx ! k)) \<and>
                 ?d ! (k * 4 + 2) = strength (?R ! (?idx ! k)) \<and>
                 ?d ! (k * 4 + 3) = startTime (?R ! (?idx ! k))"
      by (simp add: ripple_field_def)
  qed
  have "activeCount ?res \<le> 128 \<and> length (data ?res) = 512 \<and>
           (let idx = filter (\<lambda>i. active (ripples ?s' ! i)) [0..<128] in
              length idx = activeCount ?res \<and> sorted_wrt (<) idx \<and>
              (\<forall>k < activeCount ?res.
                 data ?res ! (k * 4) = px (ripples ?s' ! (idx ! k)) \<and>
                 data ?res ! (k * 4 + 1) = py (ripples ?s' ! (idx ! k)) \<and>
                 data ?res ! (k * 4 + 2) = strength (ripples ?s' ! (idx ! k)) \<and>
                 data ?res ! (k * 4 + 3) = startTime (ripples ?s' ! (idx ! k)))) \<and>
           (\<forall>k. activeCount ?res \<le> k \<and> k < 128 \<longrightarrow> data ?res ! (k * 4 + 2) = 0)"
    unfolding Let_def using cnt dlen lA srt packed tail by simp
  with u show ?thesis by blast
qed

lemma reachable_addRipples:
  "reachable s \<Longrightarrow> addRipples cs s = Inr s' \<Longrightarrow> reachable s'"
proof (induction cs arbitrary: s)
  case Nil
  then show ?case by simp
next
  case (Cons c cs)
  obtain x y t where c: "c = (x, y, t)" by (cases c) auto
  from Cons.prems(2) c obtain s1 where
    s1: "addRipple x y t s = Inr s1" "addRipples cs s1 = Inr s'"
    by (auto split: sum.splits)
  from reachable_addRipple[OF Cons.prems(1) s1(1)] have "reachable s1" .
  from Cons.IH[OF this s1(2)] show ?case .
qed

theorem update_packs_in_slot_order_witness:
  "\<exists>s. addRipples wrapped_inserts (new_RippleManager 128) = Inr s \<and> reachable s \<and>
     (\<exists>res s'. update 3225 s = Inr (res, s') \<and>
        2 \<le> activeCount res \<and> activeCount res \<le> 128 \<and>
        data res ! 3 = 3225 / 1000 \<and>
        data res ! ((activeCount res - 1) * 4 + 3) = 3200 / 1000 \<and>
        (\<forall>k. activeCount res \<le> k \<and> k < 128 \<longrightarrow> data res ! (k * 4 + 2) = 0))"
proof -
  let ?s0 = "new_RippleManager 128"
  let ?cs = wrapped_inserts
  have i0: "ledger_inv ?s0" by (simp add: ledger_inv_new)
  have f0: "lastRippleTime ?s0 = 0" "nextRippleIndex ?s0 = 0" "maxRipples ?s0 = 128"
    by (simp_all add: new_RippleManager_def)
  have l: "length ?cs = 129" by (simp add: wrapped_inserts_def)
  have sp: "spaced (lastRippleTime ?s0) ?cs"
    using spaced_steps[of 0 129] by (simp add: f0 wrapped_inserts_def)
  from addRipples_spec[OF i0 sp] obtain s where
    s: "addRipples ?cs ?s0 = Inr s" "ledger_inv s" "maxRipples s = maxRipples ?s0"
       "\<forall>j < length ?cs. length ?cs - j \<le> maxRipples ?s0 \<longrightarrow>
           ripples s ! ((nextRippleIndex ?s0 + j) mod maxRipples ?s0) = fresh (?cs ! j)"
    by blast
  have e: "?cs ! 128 = (0, 0, 3225)" "?cs ! 127 = (0, 0, 3200)"
    by (simp_all add: wrapped_inserts_def)
  have r0: "ripples s ! 0 = fresh (0, 0, 3225)"
    using s(4)[rule_format, of 128] unfolding l f0 e by simp
  have r127: "ripples s ! 127 = fresh (0, 0, 3200)"
    using s(4)[rule_format, of 127] unfolding l f0 e by simp
  have rs: "reachable s"
    using reachable_addRipples[OF reachable_new s(1)] .
  have len: "length (ripples s) = 128" and m: "maxAge s = 2"
    using s(2,3) f0 by (simp_all add: ledger_inv_def)
  from update_packs_in_slot_order[OF rs, of 3225] obtain res s' where
    u: "update 3225 s = Inr (res, s')" and cnt: "activeCount res \<le> 128"
    and idx: "length (filter (\<lambda>i. active (ripples s' ! i)) [0..<128]) = activeCount res"
      "\<forall>k < activeCount res.
         data res ! (k * 4 + 3) = startTime (ripples s' ! (filter (\<lambda>i. active (ripples s' ! i)) [0..<128] ! k))"
    and tail: "\<forall>k. activeCount res \<le> k \<and> k < 128 \<longrightarrow> data res ! (k * 4 + 2) = 0"
    unfolding Let_def by blast
  let ?P = "\<lambda>i. active (ripples s' ! i)"
  let ?idx = "filter ?P [0..<128]"
  have R: "ripples s' = ticked 3225 s"
    using u update_eq[of s 3225] len s(3) f0 by auto
  have t0: "ripples s' ! 0 = fresh (0, 0, 3225)"
    unfolding R using ticked_nth[of 0 s 3225] len r0 m
    by (simp add: tick_ripple_def fresh_def STRENGTH_THRESHOLD_def)
  have t127: "ripples s' ! 127 = (fresh (0, 0, 3200)) \<lparr> strength := 1 - (3225 / 1000 - 3200 / 1000) / 2 \<rparr>"
    unfolding R using ticked_nth[of 127 s 3225] len r127 m
    by (simp add: tick_ripple_def fresh_def STRENGTH_THRESHOLD_def)
  have P0: "?P 0" and P127: "?P 127"
    using t0 t127 by (simp_all add: fresh_def)
  have "[0..<128] = 0 # [Suc 0..<128]"
    by (rule upt_conv_Cons) simp
  moreover have "[Suc 0..<Suc 127] = [Suc 0..<127] @ [127]"
    by (rule upt_Suc_append) simp
  moreover have "Suc 127 = 128" by simp
  ultimately have "[0..<128] = 0 # [1..<127] @ [127::nat]"
    by (simp del: upt_Suc)
  then have split: "?idx = 0 # filter ?P [1..<127] @ [127]"
    using P0 P127 by simp
  then have n2: "2 \<le> activeCount res"
    using idx(1) by simp
  have first: "?idx ! 0 = 0"
    unfolding split by simp
  have "?idx ! (length ?idx - 1) = last ?idx"
    using split by (simp add: last_conv_nth)
  also have "\<dots> = 127" unfolding split by simp
  finally have lastidx: "?idx ! (activeCount res - 1) = 127"
    using idx(1) by simp
  have d0: "data res ! 3 = 3225 / 1000"
    using idx(2)[rule_format, of 0] n2 first t0 by (simp add: fresh_def)
  have dl: "data res ! ((activeCount res - 1) * 4 + 3) = 3200 / 1000"
    using idx(2)[rule_format, of "activeCount res - 1"] n2 lastidx t127 by (simp add: fresh_def)
  show ?thesis
    using s(1) rs u n2 cnt d0 dl tail by blast
qed

lemma tick_ripple_inactive: "\<not> active r \<Longrightarrow> tick_ripple mA ct r = r"
  by (simp add: tick_ripple_def)

lemma new_ripples: "ripples (new_RippleManager 128) = idle_slot # replicate 127 idle_slot"
proof -
  have "(128::nat) = Suc 127" by simp
  then have "replicate 128 idle_slot = idle_slot # replicate 127 idle_slot"
    by (simp only: replicate_Suc)
  then show ?thesis by (simp add: new_RippleManager_def idle_slot_def)
qed

lemma dense_empty_zero: "dense n [] (replicate m 0) = replicate m 0"
  by (rule nth_equalityI) (simp_all add: dense_nth)

lemma update_new:
  "update timestamp (new_RippleManager 128) =
     Inr (\<lparr> data = replicate 512 0, activeCount = 0 \<rparr>, new_RippleManager 128)"
proof -
  let ?s = "new_RippleManager 128"
  have len: "length (ripples ?s) = maxRipples ?s"
    by (simp add: new_RippleManager_def)
  have R: "ticked timestamp ?s = ripples ?s"
    by (simp add: ticked_def new_RippleManager_def tick_ripple_inactive)
  have A: "filter active (ripples ?s) = []"
    by (simp add: new_RippleManager_def)
  have d: "rippleData ?s = replicate 512 0"
    by (simp add: new_RippleManager_def)
  show ?thesis
    unfolding update_eq[OF len] R A d dense_empty_zero
    by (simp add: new_RippleManager_def)
qed

text \<open>
  On a new ledger \<open>lastRippleTime\<close> is 0, so an insert at timestamp 0 falls under the
  rate limit: it is dropped, and \<open>update 0\<close> then reports no active record.
\<close>

theorem first_insert_at_zero_dropped:
  "addRipple (1/2) (1/2) 0 (new_RippleManager 128) = Inr (new_RippleManager 128) \<and>
   update 0 (new_RippleManager 128) =
     Inr (\<lparr> data = replicate 512 0, activeCount = 0 \<rparr>, new_RippleManager 128)"
proof
  show "addRipple (1/2) (1/2) 0 (new_RippleManager 128) = Inr (new_RippleManager 128)"
    by (simp add: addRipple_def new_RippleManager_def)
  show "update 0 (new_RippleManager 128) =
     Inr (\<lparr> data = replicate 512 0, activeCount = 0 \<rparr>, new_RippleManager 128)"
    by (rule update_new)
qed

text \<open>
  Claim C5, amended. On a new ledger, an insert at \<open>(0.5, 0.5)\<close> at any timestamp
  \<open>t \<ge> 25\<close> ms followed by \<open>update t\<close> gives exactly one active record, with strength
  1 and position \<open>(0.5, 0.5)\<close>, packed as the first dense entry; \<open>update (t + 2000)\<close>
  (age 2 s, the maximum age) then deactivates it and returns the count 0.
\<close>

theorem first_ripple_lifecycle:
  assumes t: "25 \<le> t"
  shows "\<exists>s1 res1 s2 res2 s3.
     addRipple (1/2) (1/2) t (new_RippleManager 128) = Inr s1 \<and>
     update t s1 = Inr (res1, s2) \<and> activeCount res1 = 1 \<and>
     filter active (ripples s2) =
       [\<lparr> px = 1/2, py = 1/2, startTime = t / 1000, strength = 1, active = True \<rparr>] \<and>
     data res1 ! 0 = 1/2 \<and> data res1 ! 1 = 1/2 \<and> data res1 ! 2 = 1 \<and>
     data res1 ! 3 = t / 1000 \<and>
     update (t + 2000) s2 = Inr (res2, s3) \<and> activeCount res2 = 0 \<and>
     filter active (ripples s3) = [] \<and>
     ripples s3 ! 0 = \<lparr> px = 1/2, py = 1/2, startTime = t / 1000, strength = 0, active = False \<rparr>"
proof -
  let ?s0 = "new_RippleManager 128"
  let ?fr = "\<lparr> px = 1/2, py = 1/2, startTime = t / 1000, strength = 1, active = True \<rparr>"
  let ?dead = "\<lparr> px = 1/2, py = 1/2, startTime = t / 1000, strength = 0, active = False \<rparr>"
  let ?s1 = "?s0 \<lparr> ripples := ?fr # replicate 127 idle_slot, nextRippleIndex := 1, lastRippleTime := t \<rparr>"
  let ?d1 = "dense 128 [?fr] (replicate 512 0)"
  let ?res1 = "\<lparr> data = ?d1, activeCount = 1 \<rparr>"
  let ?s2 = "?s1 \<lparr> ripples := ?fr # replicate 127 idle_slot, rippleData := ?d1, activeRippleCount := 1 \<rparr>"
  let ?d2 = "dense 128 [] ?d1"
  let ?res2 = "\<lparr> data = ?d2, activeCount = 0 \<rparr>"
  let ?s3 = "?s2 \<lparr> ripples := ?dead # replicate 127 idle_slot, rippleData := ?d2, activeRippleCount := 0 \<rparr>"
  have f0: "lastRippleTime ?s0 = 0" "nextRippleIndex ?s0 = 0" "maxRipples ?s0 = 128"
    "maxAge ?s0 = 2" "rippleData ?s0 = replicate 512 0"
    by (simp_all add: new_RippleManager_def)
  have idle: "\<not> active idle_slot" by (simp add: idle_slot_def)
  have a: "addRipple (1/2) (1/2) t ?s0 = Inr ?s1"
    using addRipple_accept[OF ledger_inv_new, of 128 t "1/2" "1/2"] t
    by (simp add: f0 new_ripples fresh_def)
  have len1: "length (ripples ?s1) = maxRipples ?s1"
    by (simp add: f0)
  have R1: "ticked t ?s1 = ?fr # replicate 127 idle_slot"
    by (simp add: ticked_def f0 tick_ripple_inactive idle)
       (simp add: tick_ripple_def STRENGTH_THRESHOLD_def)
  have A1: "filter active (?fr # replicate 127 idle_slot) = [?fr]"
    using idle by simp
  have u1: "update t ?s1 = Inr (?res1, ?s2)"
    unfolding update_eq[OF len1] R1 A1 by (simp add: f0)
  have d: "?d1 ! 0 = 1/2" "?d1 ! 1 = 1/2" "?d1 ! 2 = 1" "?d1 ! 3 = t / 1000"
    by (simp_all add: dense_nth ripple_field_def)
  have len2: "length (ripples ?s2) = maxRipples ?s2"
    by (simp add: f0)
  have age2: "(t + 2000) / 1000 - t / 1000 = 2"
    by (simp add: field_simps)
  have R2: "ticked (t + 2000) ?s2 = ?dead # replicate 127 idle_slot"
    by (simp add: ticked_def f0 tick_ripple_inactive idle)
       (simp add: tick_ripple_def age2)
  have A2: "filter active (?dead # replicate 127 idle_slot) = []"
    using idle by simp
  have u2: "update (t + 2000) ?s2 = Inr (?res2, ?s3)"
    unfolding update_eq[OF len2] R2 A2 by (simp add: f0)
  show ?thesis
    apply (rule exI[of _ ?s1], rule exI[of _ ?res1], rule exI[of _ ?s2],
           rule exI[of _ ?res2], rule exI[of _ ?s3])
    using a u1 u2 d A1 A2 by simp
qed

theorem first_ripple_lifecycle_witness:
  "(25::real) \<le> 25 \<and>
   (\<exists>s1 res1 s2 res2 s3.
     addRipple (1/2) (1/2) 25 (new_RippleManager 128) = Inr s1 \<and>
     update 25 s1 = Inr (res1, s2) \<and> activeCount res1 = 1 \<and>
     filter active (ripples s2) =
       [\<lparr> px = 1/2, py = 1/2, startTime = 25 / 1000, strength = 1, active = True \<rparr>] \<and>
     data res1 ! 0 = 1/2 \<and> data res1 ! 1 = 1/2 \<and> data res1 ! 2 = 1 \<and>
     data res1 ! 3 = 25 / 1000 \<and>
     update 2025 s2 = Inr (res2, s3) \<and> activeCount res2 = 0 \<and>
     filter active (ripples s3) = [] \<and>
     ripples s3 ! 0 = \<lparr> px = 1/2, py = 1/2, startTime = 25 / 1000, strength = 0, active = False \<rparr>)"
proof -
  have h: "(25::real) \<le> 25" by simp
  from first_ripple_lifecycle[OF h] h show ?thesis by simp
qed

section \<open>Properties of the field evaluator\<close>

lemma smoothstep_defined:
  "edge1 \<noteq> edge0 \<Longrightarrow> \<exists>w. smoothstep edge0 edge1 v = Some w"
  by (simp add: smoothstep_def fdiv_def Let_def)

lemma hermite_range:
  fixes t :: real
  assumes "0 \<le> t" "t \<le> 1"
  shows "0 \<le> t * t * (3 - 2 * t) \<and> t * t * (3 - 2 * t) \<le> 1"
proof
  show "0 \<le> t * t * (3 - 2 * t)"
    using assms by (intro mult_nonneg_nonneg) simp_all
  have "1 - t * t * (3 - 2 * t) = (1 - t) * (1 - t) * (1 + 2 * t)"
    by (simp add: algebra_simps)
  moreover have "0 \<le> (1 - t) * (1 - t) * (1 + 2 * t)"
    using assms by (intro mult_nonneg_nonneg) simp_all
  ultimately show "t * t * (3 - 2 * t) \<le> 1" by simp
qed

lemma smoothstep_range:
  assumes "smoothstep edge0 edge1 v = Some w"
  shows "0 \<le> w \<and> w \<le> 1"
proof -
  from assms obtain q where w: "w = clamp q 0 1 * clamp q 0 1 * (3 - 2 * clamp q 0 1)"
    by (auto simp: smoothstep_def Let_def split: option.splits)
  have "0 \<le> clamp q 0 1" "clamp q 0 1 \<le> 1"
    by (simp_all add: clamp_def)
  from hermite_range[OF this] w show ?thesis by simp
qed

lemma product_bound:
  fixes a s A e f x :: real
  assumes "\<bar>a\<bar> \<le> 1" "0 \<le> s" "s \<le> 1" "0 \<le> A" "0 \<le> e" "e \<le> 1"
    "0 \<le> f" "f \<le> 1" "0 \<le> x" "x \<le> 1"
  shows "\<bar>a * s * A * e * f * x\<bar> \<le> A"
proof -
  have 1: "\<bar>a\<bar> * s \<le> 1" "0 \<le> \<bar>a\<bar> * s"
    using assms by (simp_all add: mult_le_one)
  have 2: "\<bar>a\<bar> * s * e \<le> 1" "0 \<le> \<bar>a\<bar> * s * e"
    using 1 assms by (simp_all add: mult_le_one)
  have 3: "\<bar>a\<bar> * s * e * f \<le> 1" "0 \<le> \<bar>a\<bar> * s * e * f"
    using 2 assms by (simp_all add: mult_le_one)
  have 4: "\<bar>a\<bar> * s * e * f * x \<le> 1" "0 \<le> \<bar>a\<bar> * s * e * f * x"
    using 3 assms by (simp_all add: mult_le_one)
  have "\<bar>a * s * A * e * f * x\<bar> = A * (\<bar>a\<bar> * s * e * f * x)"
    using assms by (simp add: abs_mult)
  also have "\<dots> \<le> A * 1"
    using 4 assms(4) by (intro mult_left_mono) simp_all
  finally show ?thesis by simp
qed

lemma calculateRipple_unfold:
  "calculateRipple uniforms uv ripple =
     (if early_exit uniforms uv ripple then Some 0
      else
        (case fdiv (ripple_dist uniforms uv ripple - MIN_RIPPLE_RADIUS)
                   (ripple_radius uniforms ripple - MIN_RIPPLE_RADIUS) of
           None \<Rightarrow> None
         | Some normalizedDist \<Rightarrow>
             (case smoothstep (ripple_radius uniforms ripple * 0.7) (ripple_radius uniforms ripple)
                     (ripple_dist uniforms uv ripple) of
                None \<Rightarrow> None
              | Some e \<Rightarrow>
                  (case smoothstep MIN_RIPPLE_RADIUS (MIN_RIPPLE_RADIUS * 2)
                          (ripple_dist uniforms uv ripple) of
                     None \<Rightarrow> None
                   | Some startFalloff \<Rightarrow>
                       Some (sin ((normalizedDist * 2 - (time uniforms - rd_startTime ripple) * 2) * PI) *
                             rd_strength ripple *
                             RIPPLE_AMPLITUDE *
                             (1 - e) *
                             startFalloff *
                             exp (- ripple_dist uniforms uv ripple * RIPPLE_EDGE_SHARPNESS))))))"
  unfolding calculateRipple_def early_exit_def ripple_dist_def ripple_radius_def Let_def
  by (simp split: option.splits)

lemma calculateRipple_early_exit:
  "early_exit uniforms uv ripple \<Longrightarrow> calculateRipple uniforms uv ripple = Some 0"
  by (simp add: calculateRipple_unfold)

lemma calculateRipple_None_iff:
  "calculateRipple uniforms uv ripple = None \<longleftrightarrow>
     \<not> early_exit uniforms uv ripple \<and> ripple_radius uniforms ripple = MIN_RIPPLE_RADIUS"
proof (cases "early_exit uniforms uv ripple")
  case True
  then show ?thesis by (simp add: calculateRipple_unfold)
next
  case False
  let ?R = "ripple_radius uniforms ripple" and ?d = "ripple_dist uniforms uv ripple"
  from False have R: "MIN_RIPPLE_RADIUS \<le> ?R"
    by (simp add: early_exit_def)
  then have "?R * 0.7 \<noteq> ?R" by (simp add: MIN_RIPPLE_RADIUS_def)
  then obtain e where e: "smoothstep (?R * 0.7) ?R ?d = Some e"
    using smoothstep_defined[of ?R "?R * 0.7" ?d] by auto
  have "MIN_RIPPLE_RADIUS * 2 \<noteq> MIN_RIPPLE_RADIUS" by (simp add: MIN_RIPPLE_RADIUS_def)
  then obtain f where f: "smoothstep MIN_RIPPLE_RADIUS (MIN_RIPPLE_RADIUS * 2) ?d = Some f"
    using smoothstep_defined[of "MIN_RIPPLE_RADIUS * 2" MIN_RIPPLE_RADIUS ?d] by auto
  show ?thesis
    using False e f by (simp add: calculateRipple_unfold fdiv_def)
qed

lemma calculateRipple_bound:
  assumes s: "0 \<le> rd_strength ripple" "rd_strength ripple \<le> 1"
    and v: "calculateRipple uniforms uv ripple = Some v"
  shows "\<bar>v\<bar> \<le> RIPPLE_AMPLITUDE"
proof (cases "early_exit uniforms uv ripple")
  case True
  with v show ?thesis by (simp add: calculateRipple_unfold RIPPLE_AMPLITUDE_def)
next
  case False
  let ?R = "ripple_radius uniforms ripple" and ?d = "ripple_dist uniforms uv ripple"
  from v False obtain q e f where
    e: "smoothstep (?R * 0.7) ?R ?d = Some e" and
    f: "smoothstep MIN_RIPPLE_RADIUS (MIN_RIPPLE_RADIUS * 2) ?d = Some f" and
    veq: "v = sin ((q * 2 - (time uniforms - rd_startTime ripple) * 2) * PI) *
              rd_strength ripple * RIPPLE_AMPLITUDE * (1 - e) * f *
              exp (- ?d * RIPPLE_EDGE_SHARPNESS)"
    by (auto simp: calculateRipple_unfold split: option.splits)
  from smoothstep_range[OF e] have e01: "0 \<le> 1 - e" "1 - e \<le> 1" by simp_all
  from smoothstep_range[OF f] have f01: "0 \<le> f" "f \<le> 1" by simp_all
  from False have "MIN_RIPPLE_RADIUS \<le> ?d" by (simp add: early_exit_def)
  then have "0 \<le> ?d" by (simp add: MIN_RIPPLE_RADIUS_def)
  then have x: "exp (- ?d * RIPPLE_EDGE_SHARPNESS) \<le> 1"
    by (simp add: RIPPLE_EDGE_SHARPNESS_def)
  have x0: "0 \<le> exp (- ?d * RIPPLE_EDGE_SHARPNESS)" by simp
  have A: "0 \<le> RIPPLE_AMPLITUDE" by (simp add: RIPPLE_AMPLITUDE_def)
  show ?thesis
    unfolding veq
    by (rule product_bound[OF abs_sin_le_one s A e01 f01 x0 x])
qed

text \<open>
  Claim C9 says that the divisor \<open>radius - MIN_RIPPLE_RADIUS\<close> is never zero once the
  early exit has not fired. The guard is strict on both sides, so a sample at distance
  exactly \<open>MIN_RIPPLE_RADIUS\<close> from a ripple whose radius is exactly
  \<open>MIN_RIPPLE_RADIUS\<close> (age 0.2 s) passes it, and the normalisation divides 0 by 0:
  here for a ripple at \<open>(0, 0.5)\<close> started at 0.5 s, seen at 0.7 s from the sample
  \<open>(0.02, 0.5)\<close>.
\<close>

theorem normalization_divides_by_zero:
  "\<not> early_exit \<lparr> time = 7/10, aspect_ratio = 1, padding1 = 1, padding2 = 0 \<rparr> (1/50, 1/2)
        \<lparr> rd_position = (0, 1/2), rd_strength = 9/10, rd_startTime = 1/2 \<rparr> \<and>
   ripple_dist \<lparr> time = 7/10, aspect_ratio = 1, padding1 = 1, padding2 = 0 \<rparr> (1/50, 1/2)
        \<lparr> rd_position = (0, 1/2), rd_strength = 9/10, rd_startTime = 1/2 \<rparr> = MIN_RIPPLE_RADIUS \<and>
   ripple_radius \<lparr> time = 7/10, aspect_ratio = 1, padding1 = 1, padding2 = 0 \<rparr>
        \<lparr> rd_position = (0, 1/2), rd_strength = 9/10, rd_startTime = 1/2 \<rparr> - MIN_RIPPLE_RADIUS = 0 \<and>
   calculateRipple \<lparr> time = 7/10, aspect_ratio = 1, padding1 = 1, padding2 = 0 \<rparr> (1/50, 1/2)
        \<lparr> rd_position = (0, 1/2), rd_strength = 9/10, rd_startTime = 1/2 \<rparr> = None"
proof -
  let ?u = "\<lparr> time = 7/10, aspect_ratio = 1, padding1 = 1, padding2 = 0 \<rparr>"
  let ?r = "\<lparr> rd_position = (0, 1/2), rd_strength = 9/10, rd_startTime = 1/2 \<rparr>"
  have "sqrt ((1/50)\<^sup>2) = \<bar>1/50 :: real\<bar>" by (rule real_sqrt_abs)
  then have d: "ripple_dist ?u (1/50, 1/2) ?r = 1/50"
    by (simp add: ripple_dist_def distance_def)
  have R: "ripple_radius ?u ?r = 1/50"
    by (simp add: ripple_radius_def RIPPLE_SPEED_def MAX_RIPPLE_RADIUS_def)
  have g: "\<not> early_exit ?u (1/50, 1/2) ?r"
    unfolding early_exit_def d R by (simp add: MIN_RIPPLE_RADIUS_def)
  have n: "calculateRipple ?u (1/50, 1/2) ?r = None"
    unfolding calculateRipple_None_iff using g R by (simp add: MIN_RIPPLE_RADIUS_def)
  show ?thesis
    using g d R n by (simp add: MIN_RIPPLE_RADIUS_def)
qed

text \<open>
  Claim C7 bounds the magnitude of every contribution by the amplitude. The zero part
  is \<open>calculateRipple_early_exit\<close> and the bound holds for every value the function
  returns (\<open>calculateRipple_bound\<close>), but on the inner ring at age 0.2 s it returns no
  value (\<open>calculateRipple_None_iff\<close>): here for a ripple at \<open>(0.5, 0)\<close> started at
  0.5 s, seen at 0.7 s with strength 0.9 from the sample \<open>(0.5, 0.02)\<close>.
\<close>

theorem contribution_undefined_on_inner_ring:
  "0 \<le> rd_strength \<lparr> rd_position = (1/2, 0), rd_strength = 9/10, rd_startTime = 1/2 \<rparr> \<and>
   rd_strength \<lparr> rd_position = (1/2, 0), rd_strength = 9/10, rd_startTime = 1/2 \<rparr> \<le> 1 \<and>
   \<not> (\<exists>v. calculateRipple \<lparr> time = 7/10, aspect_ratio = 16/9, padding1 = 1, padding2 = 0 \<rparr> (1/2, 1/50)
               \<lparr> rd_position = (1/2, 0), rd_strength = 9/10, rd_startTime = 1/2 \<rparr> = Some v \<and>
            \<bar>v\<bar> \<le> RIPPLE_AMPLITUDE)"
proof -
  let ?u = "\<lparr> time = 7/10, aspect_ratio = 16/9, padding1 = 1, padding2 = 0 \<rparr>"
  let ?r = "\<lparr> rd_position = (1/2, 0), rd_strength = 9/10, rd_startTime = 1/2 \<rparr>"
  have "sqrt ((1/50)\<^sup>2) = \<bar>1/50 :: real\<bar>" by (rule real_sqrt_abs)
  then have d: "ripple_dist ?u (1/2, 1/50) ?r = 1/50"
    by (simp add: ripple_dist_def distance_def)
  have R: "ripple_radius ?u ?r = 1/50"
    by (simp add: ripple_radius_def RIPPLE_SPEED_def MAX_RIPPLE_RADIUS_def)
  have g: "\<not> early_exit ?u (1/2, 1/50) ?r"
    unfolding early_exit_def d R by (simp add: MIN_RIPPLE_RADIUS_def)
  have n: "calculateRipple ?u (1/2, 1/50) ?r = None"
    unfolding calculateRipple_None_iff using g R by (simp add: MIN_RIPPLE_RADIUS_def)
  show ?thesis
    unfolding n by simp
qed

lemma fold_add_contribution_None:
  "fold (add_contribution uniforms buffer uv) is None = None"
  by (induction "is") (simp_all add: add_contribution_def)

lemma ripple_loop_fold:
  "i \<le> 128 \<Longrightarrow>
   ripple_loop uniforms buffer uv i tot =
     fold (add_contribution uniforms buffer uv) [i..<128] (Some tot)"
proof (induction uniforms buffer uv i tot rule: ripple_loop.induct)
  case (1 uniforms buffer uv i tot)
  show ?case
  proof (cases "i < 128")
    case False
    with "1.prems" show ?thesis by (subst ripple_loop.simps) simp
  next
    case True
    then have u: "[i..<128] = i # [i + 1..<128]"
      by (simp add: upt_conv_Cons)
    show ?thesis
    proof (cases "calculateRipple uniforms uv (buffer i)")
      case None
      then show ?thesis
        using True unfolding u
        by (subst ripple_loop.simps) (simp add: add_contribution_def fold_add_contribution_None)
    next
      case (Some c)
      from "1.IH"[OF True Some] True
      have "ripple_loop uniforms buffer uv (i + 1) (tot + c) =
              fold (add_contribution uniforms buffer uv) [i + 1..<128] (Some (tot + c))"
        by simp
      then show ?thesis
        using True Some unfolding u
        by (subst ripple_loop.simps) (simp add: add_contribution_def)
    qed
  qed
qed

lemma fold_zero_tail:
  assumes "\<forall>i. n \<le> i \<and> i < m \<longrightarrow> calculateRipple uniforms uv (buffer i) = Some 0"
  shows "fold (add_contribution uniforms buffer uv) [n..<m] acc = acc"
  using assms
proof (induction m)
  case 0
  show ?case by simp
next
  case (Suc m)
  show ?case
  proof (cases "n \<le> m")
    case False
    then show ?thesis by simp
  next
    case True
    from Suc.prems have z: "calculateRipple uniforms uv (buffer m) = Some 0"
      using True by simp
    from Suc.prems have "\<forall>i. n \<le> i \<and> i < m \<longrightarrow> calculateRipple uniforms uv (buffer i) = Some 0"
      by simp
    from Suc.IH[OF this] True z show ?thesis
      by (simp add: add_contribution_def split: option.splits)
  qed
qed

lemma ripple_loop_prefix:
  assumes n: "n \<le> 128"
    and z: "\<forall>i. n \<le> i \<and> i < 128 \<longrightarrow> rd_strength (buffer i) \<le> 0"
  shows "ripple_loop uniforms buffer uv 0 0 = sum_first n uniforms buffer uv"
proof -
  have "[0..<n + (128 - n)] = [0..<n] @ [n..<n + (128 - n)]"
    by (rule upt_add_eq_append) simp
  then have "[0..<128] = [0..<n] @ [n..<128]"
    using n by simp
  then have "ripple_loop uniforms buffer uv 0 0 =
      fold (add_contribution uniforms buffer uv) [n..<128] (sum_first n uniforms buffer uv)"
    by (simp add: ripple_loop_fold sum_first_def)
  moreover have "\<forall>i. n \<le> i \<and> i < 128 \<longrightarrow> calculateRipple uniforms uv (buffer i) = Some 0"
    using z by (simp add: calculateRipple_early_exit early_exit_def)
  ultimately show ?thesis
    by (simp add: fold_zero_tail)
qed

lemma sum_first_cong:
  assumes "\<forall>i < n. buffer i = buffer' i"
  shows "sum_first n uniforms buffer uv = sum_first n uniforms buffer' uv"
  unfolding sum_first_def
  by (rule fold_cong) (use assms in \<open>auto simp: add_contribution_def fun_eq_iff split: option.splits\<close>)

lemma calculateRipple_padding1:
  "calculateRipple (uniforms \<lparr> padding1 := c \<rparr>) uv ripple = calculateRipple uniforms uv ripple"
  by (simp add: calculateRipple_def)

lemma ripple_loop_padding1:
  "i \<le> 128 \<Longrightarrow> ripple_loop (uniforms \<lparr> padding1 := c \<rparr>) buffer uv i tot =
     ripple_loop uniforms buffer uv i tot"
proof -
  have "add_contribution (uniforms \<lparr> padding1 := c \<rparr>) buffer uv = add_contribution uniforms buffer uv"
    by (intro ext) (simp add: add_contribution_def calculateRipple_padding1 split: option.splits)
  then show "i \<le> 128 \<Longrightarrow> ?thesis" by (simp add: ripple_loop_fold)
qed

lemma fragmentMain_padding1:
  "fragmentMain (uniforms \<lparr> padding1 := c \<rparr>) buffer uv = fragmentMain uniforms buffer uv"
  by (simp add: fragmentMain_def ripple_loop_padding1)

lemma update_tail_zero:
  assumes len: "length (ripples s) = maxRipples s"
    and dlen: "length (rippleData s) = maxRipples s * 4"
    and u: "update timestamp s = Inr (res, s')"
  shows "activeCount res \<le> maxRipples s \<and>
         (\<forall>k. activeCount res \<le> k \<and> k < maxRipples s \<longrightarrow> data res ! (k * 4 + 2) = 0)"
proof -
  let ?A = "filter active (ticked timestamp s)"
  from u update_eq[OF len, of timestamp]
  have res: "res = \<lparr> data = dense (maxRipples s) ?A (rippleData s), activeCount = length ?A \<rparr>"
    by simp
  have cnt: "length ?A \<le> maxRipples s"
    using length_filter_le[of active "ticked timestamp s"] len by simp
  have "dense (maxRipples s) ?A (rippleData s) ! (k * 4 + 2) = 0"
    if "length ?A \<le> k" "k < maxRipples s" for k
  proof -
    have "k * 4 + 2 < length (rippleData s)" using that dlen by simp
    from dense_entry[OF this, of "maxRipples s" ?A] that show ?thesis by simp
  qed
  with cnt show ?thesis unfolding res by simp
qed

text \<open>
  Claim C10. For the dense array returned by \<open>update\<close> and uploaded as the uniform
  array, the loop of \<open>fragmentMain\<close> over all 128 entries equals the sum over the first
  \<open>activeCount\<close> entries: every later entry has strength 0 and contributes exactly 0.
  The result is therefore the same for any other buffer contents that agree on the
  packed entries and have zero strength behind them (position and start time there are
  never looked at), and it does not depend on the third uniform scalar, where the frame
  stores the active count.
\<close>

theorem evaluator_sums_only_packed_entries:
  assumes inv: "ledger_inv s" and n: "maxRipples s = 128"
    and u: "update timestamp s = Inr (res, s')"
  shows "ripple_loop uniforms (upload (data res)) uv 0 0 =
           sum_first (activeCount res) uniforms (upload (data res)) uv \<and>
         (\<forall>k. activeCount res \<le> k \<and> k < 128 \<longrightarrow>
            rd_strength (upload (data res) k) = 0 \<and>
            calculateRipple uniforms uv (upload (data res) k) = Some 0) \<and>
         (\<forall>d'. (\<forall>j < activeCount res * 4. d' ! j = data res ! j) \<and>
               (\<forall>k. activeCount res \<le> k \<and> k < 128 \<longrightarrow> d' ! (k * 4 + 2) = 0) \<longrightarrow>
               fragmentMain uniforms (upload d') uv = fragmentMain uniforms (upload (data res)) uv) \<and>
         fragmentMain (uniforms \<lparr> padding1 := c \<rparr>) (upload (data res)) uv =
           fragmentMain uniforms (upload (data res)) uv"
proof -
  have len: "length (ripples s) = maxRipples s" and dlen: "length (rippleData s) = maxRipples s * 4"
    using inv by (simp_all add: ledger_inv_def)
  from update_tail_zero[OF len dlen u] n
  have cnt: "activeCount res \<le> 128"
    and tail: "\<forall>k. activeCount res \<le> k \<and> k < 128 \<longrightarrow> data res ! (k * 4 + 2) = 0"
    by simp_all
  have z: "\<forall>k. activeCount res \<le> k \<and> k < 128 \<longrightarrow> rd_strength (upload (data res) k) \<le> 0"
    using tail by (simp add: upload_def)
  have a: "ripple_loop uniforms (upload (data res)) uv 0 0 =
           sum_first (activeCount res) uniforms (upload (data res)) uv"
    by (rule ripple_loop_prefix[OF cnt z])
  have b: "\<forall>k. activeCount res \<le> k \<and> k < 128 \<longrightarrow>
            rd_strength (upload (data res) k) = 0 \<and>
            calculateRipple uniforms uv (upload (data res) k) = Some 0"
    using tail by (simp add: upload_def calculateRipple_early_exit early_exit_def)
  have c: "fragmentMain uniforms (upload d') uv = fragmentMain uniforms (upload (data res)) uv"
    if same: "\<forall>j < activeCount res * 4. d' ! j = data res ! j"
      and zero: "\<forall>k. activeCount res \<le> k \<and> k < 128 \<longrightarrow> d' ! (k * 4 + 2) = 0" for d'
  proof -
    have z': "\<forall>k. activeCount res \<le> k \<and> k < 128 \<longrightarrow> rd_strength (upload d' k) \<le> 0"
      using zero by (simp add: upload_def)
    have "upload d' i = upload (data res) i" if "i < activeCount res" for i
    proof -
      from that have "i * 4 < activeCount res * 4" "i * 4 + 1 < activeCount res * 4"
        "i * 4 + 2 < activeCount res * 4" "i * 4 + 3 < activeCount res * 4"
        by simp_all
      with same show ?thesis
        unfolding upload_def by simp
    qed
    then have "sum_first (activeCount res) uniforms (upload d') uv =
               sum_first (activeCount res) uniforms (upload (data res)) uv"
      by (intro sum_first_cong) simp
    then have "ripple_loop uniforms (upload d') uv 0 0 =
               ripple_loop uniforms (upload (data res)) uv 0 0"
      using ripple_loop_prefix[OF cnt z'] a by simp
    then show ?thesis by (simp add: fragmentMain_def)
  qed
  show ?thesis
    using a b c fragmentMain_padding1 by blast
qed

theorem evaluator_sums_only_packed_entries_witness:
  "ledger_inv one_ripple \<and> maxRipples one_ripple = 128 \<and>
   (\<exists>res s'. update 1025 one_ripple = Inr (res, s') \<and>
      ripple_loop (timeUniforms 1025 1 res) (upload (data res)) (1/2, 1/2) 0 0 =
        sum_first (activeCount res) (timeUniforms 1025 1 res) (upload (data res)) (1/2, 1/2) \<and>
      fragmentMain ((timeUniforms 1025 1 res) \<lparr> padding1 := 0 \<rparr>) (upload (data res)) (1/2, 1/2) =
        fragmentMain (timeUniforms 1025 1 res) (upload (data res)) (1/2, 1/2))"
proof -
  have n: "maxRipples one_ripple = 128"
    by (simp add: one_ripple_def new_RippleManager_def)
  have len: "length (ripples one_ripple) = maxRipples one_ripple"
    using one_ripple_inv by (simp add: ledger_inv_def)
  from update_eq[OF len, of 1025] obtain res s' where
    u: "update 1025 one_ripple = Inr (res, s')" by blast
  from evaluator_sums_only_packed_entries
         [OF one_ripple_inv n u, of "timeUniforms 1025 1 res" "(1/2, 1/2)" 0]
  have "ripple_loop (timeUniforms 1025 1 res) (upload (data res)) (1/2, 1/2) 0 0 =
          sum_first (activeCount res) (timeUniforms 1025 1 res) (upload (data res)) (1/2, 1/2) \<and>
        fragmentMain ((timeUniforms 1025 1 res) \<lparr> padding1 := 0 \<rparr>) (upload (data res)) (1/2, 1/2) =
          fragmentMain (timeUniforms 1025 1 res) (upload (data res)) (1/2, 1/2)"
    by blast
  with u one_ripple_inv n show ?thesis by blast
qed

text \<open>
  Claim C8. For every distorted coordinate the line intensity is exactly 1 when the
  distance to the nearest cell boundary is 0 and exactly 0 when it is at least
  \<open>LINE_WIDTH\<close>; at a cell centre (\<open>gridUV = (0.5, 0.5)\<close>) the distance is 0.5, the
  intensity 0 and the colour the background colour.
\<close>

theorem grid_line_intensity:
  "(distToLine (gridUV distortedUV) = 0 \<longrightarrow>
      lineIntensity (distToLine (gridUV distortedUV)) = Some 1 \<and>
      gridColor distortedUV = Some (1, 1, 1, 1)) \<and>
   (LINE_WIDTH \<le> distToLine (gridUV distortedUV) \<longrightarrow>
      lineIntensity (distToLine (gridUV distortedUV)) = Some 0 \<and>
      gridColor distortedUV = Some (0.05, 0.05, 0.15, 1)) \<and>
   (gridUV distortedUV = (1/2, 1/2) \<longrightarrow>
      distToLine (gridUV distortedUV) = 1/2 \<and>
      lineIntensity (distToLine (gridUV distortedUV)) = Some 0 \<and>
      gridColor distortedUV = Some (0.05, 0.05, 0.15, 1))"
proof -
  have one: "lineIntensity 0 = Some 1"
    by (simp add: lineIntensity_def smoothstep_def fdiv_def LINE_WIDTH_def clamp_def)
  have zero: "lineIntensity d = Some 0" if "LINE_WIDTH \<le> d" for d
  proof -
    have "(d - LINE_WIDTH) / (0 - LINE_WIDTH) \<le> 0"
      using that by (simp add: LINE_WIDTH_def divide_le_0_iff)
    then have "clamp ((d - LINE_WIDTH) / (0 - LINE_WIDTH)) 0 1 = 0"
      by (simp add: clamp_def)
    then show ?thesis
      by (simp add: lineIntensity_def smoothstep_def fdiv_def Let_def LINE_WIDTH_def)
  qed
  have c1: "finalColor 1 = (1, 1, 1)"
    by (simp add: finalColor_def mix_def)
  have c0: "finalColor 0 = (0.05, 0.05, 0.15)"
    by (simp add: finalColor_def mix_def)
  have mid: "distToLine (1/2, 1/2) = 1/2"
    by (simp add: distToLine_def)
  have w: "LINE_WIDTH \<le> 1/2" by (simp add: LINE_WIDTH_def)
  have on: "lineIntensity (distToLine (gridUV distortedUV)) = Some 1 \<and>
      gridColor distortedUV = Some (1, 1, 1, 1)"
    if "distToLine (gridUV distortedUV) = 0"
    unfolding gridColor_def that one by (simp add: c1)
  have off: "lineIntensity (distToLine (gridUV distortedUV)) = Some 0 \<and>
      gridColor distortedUV = Some (0.05, 0.05, 0.15, 1)"
    if "LINE_WIDTH \<le> distToLine (gridUV distortedUV)"
    unfolding gridColor_def zero[OF that] by (simp add: c0)
  have centre: "distToLine (gridUV distortedUV) = 1/2 \<and>
      lineIntensity (distToLine (gridUV distortedUV)) = Some 0 \<and>
      gridColor distortedUV = Some (0.05, 0.05, 0.15, 1)"
    if g: "gridUV distortedUV = (1/2, 1/2)"
  proof -
    have d: "distToLine (gridUV distortedUV) = 1/2"
      unfolding g by (rule mid)
    then have "LINE_WIDTH \<le> distToLine (gridUV distortedUV)"
      using w by simp
    from off[OF this] d show ?thesis by blast
  qed
  show ?thesis
    using on off centre by blast
qed

theorem grid_line_intensity_witness:
  "distToLine (gridUV (0, 0)) = 0 \<and>
   lineIntensity (distToLine (gridUV (0, 0))) = Some 1 \<and>
   gridColor (0, 0) = Some (1, 1, 1, 1) \<and>
   gridUV (1/40, 1/30) = (1/2, 1/2) \<and>
   LINE_WIDTH \<le> distToLine (gridUV (1/40, 1/30)) \<and>
   distToLine (gridUV (1/40, 1/30)) = 1/2 \<and>
   lineIntensity (distToLine (gridUV (1/40, 1/30))) = Some 0 \<and>
   gridColor (1/40, 1/30) = Some (0.05, 0.05, 0.15, 1)"
proof -
  have f: "fract (1/2) = 1/2"
    by (simp add: fract_def)
  have g0: "gridUV (0, 0) = (0, 0)"
    by (simp add: gridUV_def fract_def)
  have g1: "gridUV (1/40, 1/30) = (1/2, 1/2)"
    by (simp add: gridUV_def GRID_HORIZONTAL_SIZE_def GRID_VERTICAL_SIZE_def f)
  have d0: "distToLine (gridUV (0, 0)) = 0"
    unfolding g0 by (simp add: distToLine_def)
  have d1: "distToLine (gridUV (1/40, 1/30)) = 1/2"
    unfolding g1 by (simp add: distToLine_def)
  have w: "LINE_WIDTH \<le> distToLine (gridUV (1/40, 1/30))"
    unfolding d1 by (simp add: LINE_WIDTH_def)
  from grid_line_intensity[of "(0, 0)"] d0
  have a: "lineIntensity (distToLine (gridUV (0, 0))) = Some 1 \<and> gridColor (0, 0) = Some (1, 1, 1, 1)"
    by blast
  from grid_line_intensity[of "(1/40, 1/30)"] w
  have b: "lineIntensity (distToLine (gridUV (1/40, 1/30))) = Some 0 \<and>
           gridColor (1/40, 1/30) = Some (0.05, 0.05, 0.15, 1)"
    by blast
  show ?thesis using d0 a g1 w d1 b by blast
qed

end
